theory Spec2Isabelle
  imports Main
begin

section \<open>The EventEmitter of dist/EventEmitter.js\<close>

text \<open>
  The class keeps three containers: \<open>allEvents\<close> (a \<open>Set\<close> of callbacks), and two plain
  objects \<open>events\<close> and \<open>onceCallbacks\<close>, both created by the literal \<open>{}\<close> and used as
  dictionaries from event names to \<open>Set\<close>s of callbacks.

  Scope of the embedding.
  \<^item> A callback is an opaque function identity (a number). The repository holds no
    callback code: a callback is modelled as a callable that returns normally and does
    not touch the emitter, and calling it is recorded in the list of invocations that
    \<open>emit\<close> returns next to the new state.
  \<^item> A \<open>Set\<close> is its list of entries in insertion order, a deleted entry staying in
    place as \<open>None\<close>, as ECMA-262 describes \<open>[[SetData]]\<close>; \<open>forEach\<close> walks that list
    by index and reads it again at every step.
  \<^item> \<open>events\<close> and \<open>onceCallbacks\<close> are ordinary objects: a read \<open>obj[k]\<close> that finds no
    own property continues along the prototype chain, so it finds the methods of
    \<open>Object.prototype\<close>, and the name \<open>__proto__\<close> reads and writes the prototype itself.
    The file is a module, so its code is strict.
  \<^item> A method either returns \<open>this\<close> (\<open>Returned\<close>, with the state of the emitter after
    the call) or throws (\<open>Thrown\<close>, with the state the emitter is left in).
\<close>

subsection \<open>Sets of callbacks\<close>

type_synonym handler = nat

type_synonym jsset = "handler option list"

definition set_has :: "jsset \<Rightarrow> handler \<Rightarrow> bool" where
  "set_has S cb = (Some cb \<in> set S)"

definition set_add :: "jsset \<Rightarrow> handler \<Rightarrow> jsset" where
  "set_add S cb = (if set_has S cb then S else S @ [Some cb])"

definition set_delete :: "jsset \<Rightarrow> handler \<Rightarrow> jsset" where
  "set_delete S cb = map (\<lambda>e. if e = Some cb then None else e) S"

definition set_values :: "jsset \<Rightarrow> handler list" where
  "set_values S = concat (map (\<lambda>e. case e of None \<Rightarrow> [] | Some cb \<Rightarrow> [cb]) S)"

subsection \<open>Objects used as dictionaries\<close>

text \<open>
  What a property read can find: a \<open>Set\<close> that the emitter stored, or \<open>Builtin\<close>, an object
  of the host reached through the prototype chain (a method of \<open>Object.prototype\<close> or of
  \<open>Set.prototype\<close>, or \<open>Object.prototype\<close> itself). Every \<open>Builtin\<close> is truthy and has none
  of the properties \<open>add\<close>, \<open>delete\<close>, \<open>has\<close>, \<open>forEach\<close>.
\<close>

datatype jsval = SetV jsset | Builtin

datatype lookup = Undefined | Value jsval | GetterThrows

datatype error = TypeError

datatype 'a completion = Returned 'a | Thrown error 'a

fun state_of :: "'a completion \<Rightarrow> 'a" where
  "state_of (Returned s) = s"
| "state_of (Thrown e s) = s"

fun returned :: "'a completion \<Rightarrow> bool" where
  "returned (Returned s) = True"
| "returned (Thrown e s) = False"

text \<open>The string-keyed own properties of \<open>Object.prototype\<close> other than \<open>__proto__\<close>.\<close>

definition objectProtoKeys :: "string list" where
  "objectProtoKeys =
     [''constructor'', ''hasOwnProperty'', ''isPrototypeOf'', ''propertyIsEnumerable'',
      ''toLocaleString'', ''toString'', ''valueOf'', ''__defineGetter__'',
      ''__defineSetter__'', ''__lookupGetter__'', ''__lookupSetter__'']"

text \<open>
  The string-keyed methods of \<open>Set.prototype\<close> (ECMA-262, 2025); its \<open>size\<close> is a getter,
  kept apart. They are inherited only after \<open>one("__proto__", cb)\<close> has made a \<open>Set\<close> the
  prototype of \<open>events\<close>, and no result below depends on which names the list holds.
\<close>

definition setProtoKeys :: "string list" where
  "setProtoKeys =
     [''constructor'', ''has'', ''add'', ''delete'', ''clear'', ''entries'', ''forEach'',
      ''keys'', ''values'', ''union'', ''intersection'', ''difference'',
      ''symmetricDifference'', ''isSubsetOf'', ''isSupersetOf'', ''isDisjointFrom'']"

text \<open>
  \<open>getProp pr own k\<close> is the read \<open>obj[k]\<close> of an object with own properties \<open>own\<close> whose
  prototype is \<open>Object.prototype\<close> (\<open>pr = None\<close>) or a \<open>Set\<close> (\<open>pr = Some S\<close>, after
  \<open>obj.__proto__ = S\<close>). No own property \<open>__proto__\<close> is ever created: the accessor of
  \<open>Object.prototype\<close> takes the assignment. With a \<open>Set\<close> as prototype the inherited getter
  \<open>size\<close> runs on an object that is no \<open>Set\<close> and throws.
\<close>

definition getProp :: "jsset option \<Rightarrow> (string \<rightharpoonup> jsval) \<Rightarrow> string \<Rightarrow> lookup" where
  "getProp pr own k =
     (if k = ''__proto__'' then
        (case pr of None \<Rightarrow> Value Builtin | Some S \<Rightarrow> Value (SetV S))
      else
        (case own k of
           Some v \<Rightarrow> Value v
         | None \<Rightarrow>
             (case pr of
                None \<Rightarrow> if k \<in> set objectProtoKeys then Value Builtin else Undefined
              | Some S \<Rightarrow>
                  if k = ''size'' then GetterThrows
                  else if k \<in> set setProtoKeys \<or> k \<in> set objectProtoKeys then Value Builtin
                  else Undefined)))"

text \<open>
  \<open>ensureSet pr own k\<close> is the statement \<open>obj[k] = obj[k] || new Set()\<close>: every value found
  is truthy and is assigned back (an inherited one becomes an own property; the prototype
  is assigned to itself), and only \<open>undefined\<close> is replaced by a new empty \<open>Set\<close>.
\<close>

definition ensureSet :: "jsset option \<Rightarrow> (string \<rightharpoonup> jsval) \<Rightarrow> string \<Rightarrow> (string \<rightharpoonup> jsval) option" where
  "ensureSet pr own k =
     (case getProp pr own k of
        GetterThrows \<Rightarrow> None
      | Undefined \<Rightarrow> Some (own(k \<mapsto> SetV []))
      | Value v \<Rightarrow> if k = ''__proto__'' then Some own else Some (own(k \<mapsto> v)))"

subsection \<open>The emitter\<close>

text \<open>\<open>eventsProto\<close> is the prototype of the object \<open>events\<close>: \<open>None\<close> for \<open>Object.prototype\<close>.\<close>

record emitter =
  allEvents :: jsset
  events :: "string \<rightharpoonup> jsval"
  eventsProto :: "jsset option"
  onceCallbacks :: "string \<rightharpoonup> jsval"
  eventsPrefix :: string
  autoPrefix :: bool

definition EventEmitter :: "string \<Rightarrow> bool \<Rightarrow> emitter" where
  "EventEmitter pfx auto =
     \<lparr>allEvents = [], events = Map.empty, eventsProto = None, onceCallbacks = Map.empty,
      eventsPrefix = pfx, autoPrefix = auto\<rparr>"

definition getEventName :: "emitter \<Rightarrow> string \<Rightarrow> bool \<Rightarrow> string" where
  "getEventName s type usePrefix =
     (if eventsPrefix s \<noteq> [] \<and> usePrefix then eventsPrefix s @ '':'' @ type else type)"

definition getEvents :: "emitter \<Rightarrow> string \<Rightarrow> lookup" where
  "getEvents s k = getProp (eventsProto s) (events s) k"

definition getOnce :: "emitter \<Rightarrow> string \<Rightarrow> lookup" where
  "getOnce s k = getProp None (onceCallbacks s) k"

text \<open>
  Writing back the \<open>Set\<close> that \<open>this.events[k]\<close> holds after \<open>add\<close> or \<open>delete\<close> changed it in
  place: the \<open>Set\<close> is the own property \<open>k\<close>, or the prototype when \<open>k\<close> is \<open>__proto__\<close>.
\<close>

definition setEvents :: "emitter \<Rightarrow> string \<Rightarrow> jsset \<Rightarrow> emitter" where
  "setEvents s k S =
     (if k = ''__proto__'' then s\<lparr>eventsProto := Some S\<rparr>
      else s\<lparr>events := (events s)(k \<mapsto> SetV S)\<rparr>)"

definition setOnce :: "emitter \<Rightarrow> string \<Rightarrow> jsset \<Rightarrow> emitter" where
  "setOnce s k S = s\<lparr>onceCallbacks := (onceCallbacks s)(k \<mapsto> SetV S)\<rparr>"

definition on :: "string \<Rightarrow> handler \<Rightarrow> emitter \<Rightarrow> emitter completion" where
  "on type callback s =
     (let type' = getEventName s type (autoPrefix s) in
      case ensureSet (eventsProto s) (events s) type' of
        None \<Rightarrow> Thrown TypeError s
      | Some ev \<Rightarrow>
          (let s1 = s\<lparr>events := ev\<rparr> in
           case getEvents s1 type' of
             Value (SetV S) \<Rightarrow> Returned (setEvents s1 type' (set_add S callback))
           | _ \<Rightarrow> Thrown TypeError s1))"

definition off :: "string \<Rightarrow> handler \<Rightarrow> emitter \<Rightarrow> emitter completion" where
  "off type callback s =
     (let type' = getEventName s type (autoPrefix s) in
      case getEvents s type' of
        GetterThrows \<Rightarrow> Thrown TypeError s
      | Undefined \<Rightarrow> Returned s
      | Value Builtin \<Rightarrow> Thrown TypeError s
      | Value (SetV S) \<Rightarrow> Returned (setEvents s type' (set_delete S callback)))"

text \<open>
  \<open>one\<close> assigns a new \<open>Set\<close>: to \<open>__proto__\<close> this rebinds the prototype of \<open>events\<close>; to a
  name found only as a getter without setter (\<open>size\<close>, once the prototype is a \<open>Set\<close>) the
  assignment throws in strict code; otherwise it writes the own property.
\<close>

definition one :: "string \<Rightarrow> handler \<Rightarrow> emitter \<Rightarrow> emitter completion" where
  "one type callback s =
     (let type' = getEventName s type (autoPrefix s) in
      if type' = ''size'' \<and> events s type' = None \<and> eventsProto s \<noteq> None
      then Thrown TypeError s
      else Returned (setEvents s type' [Some callback]))"

definition once :: "string \<Rightarrow> handler \<Rightarrow> emitter \<Rightarrow> emitter completion" where
  "once type callback s =
     (let type' = getEventName s type (autoPrefix s) in
      case ensureSet (eventsProto s) (events s) type' of
        None \<Rightarrow> Thrown TypeError s
      | Some ev \<Rightarrow>
          (let s1 = s\<lparr>events := ev\<rparr> in
           case getEvents s1 type' of
             Value (SetV S) \<Rightarrow>
               (let s2 = setEvents s1 type' (set_add S callback) in
                case ensureSet None (onceCallbacks s2) type' of
                  None \<Rightarrow> Thrown TypeError s2
                | Some oc \<Rightarrow>
                    (let s3 = s2\<lparr>onceCallbacks := oc\<rparr> in
                     case getOnce s3 type' of
                       Value (SetV C) \<Rightarrow> Returned (setOnce s3 type' (set_add C callback))
                     | _ \<Rightarrow> Thrown TypeError s3))
           | _ \<Rightarrow> Thrown TypeError s1))"

text \<open>
  The second half of \<open>once\<close> on its own: \<open>this.onceCallbacks[_type] = ... || new Set()\<close>
  and \<open>this.onceCallbacks[_type].add(callback)\<close>, run in the state that the first half,
  which is the body of \<open>on\<close>, has produced.
\<close>

definition mark :: "string \<Rightarrow> handler \<Rightarrow> emitter \<Rightarrow> emitter completion" where
  "mark k cb s2 =
     (case ensureSet None (onceCallbacks s2) k of
        None \<Rightarrow> Thrown TypeError s2
      | Some oc \<Rightarrow>
          (let s3 = s2\<lparr>onceCallbacks := oc\<rparr> in
           case getOnce s3 k of
             Value (SetV C) \<Rightarrow> Returned (setOnce s3 k (set_add C cb))
           | _ \<Rightarrow> Thrown TypeError s3))"

definition onAll :: "handler \<Rightarrow> emitter \<Rightarrow> emitter completion" where
  "onAll callback s = Returned (s\<lparr>allEvents := set_add (allEvents s) callback\<rparr>)"

definition offAll :: "handler \<Rightarrow> emitter \<Rightarrow> emitter completion" where
  "offAll callback s = Returned (s\<lparr>allEvents := set_delete (allEvents s) callback\<rparr>)"

subsection \<open>emit\<close>

text \<open>An invocation is the callback and its argument list: strings are event names.\<close>

datatype 'p jsarg = JStr string | JArg 'p

datatype 'p invocation = Invoke handler "'p jsarg list"

text \<open>
  The rest of the arrow function of the second \<open>forEach\<close>, after \<open>callback(arg)\<close>:
  \<open>this.onceCallbacks[_type]?.has?.(callback)\<close> is \<open>undefined\<close> unless the value read is a
  \<open>Set\<close>; then \<open>this.off(type, callback)\<close> is called with the name as \<open>emit\<close> received it,
  and the callback is deleted from the once \<open>Set\<close>.
\<close>

definition emit_callback :: "string \<Rightarrow> string \<Rightarrow> handler \<Rightarrow> emitter \<Rightarrow> emitter completion" where
  "emit_callback type type' callback s =
     (case getOnce s type' of
        Value (SetV C) \<Rightarrow>
          if set_has C callback then
            (case off type callback s of
               Thrown e s1 \<Rightarrow> Thrown e s1
             | Returned s1 \<Rightarrow>
                 (case getOnce s1 type' of
                    Value (SetV C1) \<Rightarrow> Returned (setOnce s1 type' (set_delete C1 callback))
                  | _ \<Rightarrow> Thrown TypeError s1))
          else Returned s
      | _ \<Rightarrow> Returned s)"

text \<open>
  \<open>this.events[_type].forEach(...)\<close> from entry \<open>i\<close> on. The \<open>Set\<close> walked is the one
  that \<open>events\<close> holds under \<open>_type\<close>: nothing in the loop assigns that property, so it is
  read from the state at every step, which shows the entries as the loop has changed
  them. A throw leaves the loop.
\<close>

function forEach_events ::
  "string \<Rightarrow> string \<Rightarrow> 'p \<Rightarrow> nat \<Rightarrow> emitter \<Rightarrow> 'p invocation list \<times> emitter completion" where
  "forEach_events type type' arg i s =
     (case getEvents s type' of
        Value (SetV S) \<Rightarrow>
          if i < length S then
            (case S ! i of
               None \<Rightarrow> forEach_events type type' arg (Suc i) s
             | Some callback \<Rightarrow>
                 (case emit_callback type type' callback s of
                    Thrown e s1 \<Rightarrow> ([Invoke callback [JArg arg]], Thrown e s1)
                  | Returned s1 \<Rightarrow>
                      (let (calls, r) = forEach_events type type' arg (Suc i) s1
                       in (Invoke callback [JArg arg] # calls, r))))
          else ([], Returned s)
      | _ \<Rightarrow> ([], Returned s))"
  by pat_completeness auto

definition emit :: "string \<Rightarrow> 'p \<Rightarrow> emitter \<Rightarrow> 'p invocation list \<times> emitter completion" where
  "emit type arg s =
     (let type' = getEventName s type True;
          calls = map (\<lambda>callback. Invoke callback [JStr type, JArg arg]) (set_values (allEvents s))
      in case getEvents s type' of
           GetterThrows \<Rightarrow> (calls, Thrown TypeError s)
         | Undefined \<Rightarrow> (calls, Returned s)
         | Value Builtin \<Rightarrow> (calls, Thrown TypeError s)
         | Value (SetV S) \<Rightarrow>
             (let (calls', r) = forEach_events type type' arg 0 s in (calls @ calls', r)))"

subsection \<open>Reading the state\<close>

text \<open>
  The entries of the \<open>Set\<close> that \<open>events\<close> (or \<open>onceCallbacks\<close>) holds under a name, and no
  entries when the name holds no \<open>Set\<close>.
\<close>

definition entries :: "emitter \<Rightarrow> string \<Rightarrow> jsset" where
  "entries s k = (case getEvents s k of Value (SetV S) \<Rightarrow> S | _ \<Rightarrow> [])"

definition onceEntries :: "emitter \<Rightarrow> string \<Rightarrow> jsset" where
  "onceEntries s k = (case getOnce s k of Value (SetV C) \<Rightarrow> C | _ \<Rightarrow> [])"

text \<open>The calls of the first \<open>forEach\<close> of \<open>emit\<close>, and those of the second for a list of callbacks.\<close>

definition universalCalls :: "emitter \<Rightarrow> string \<Rightarrow> 'p \<Rightarrow> 'p invocation list" where
  "universalCalls s type arg =
     map (\<lambda>callback. Invoke callback [JStr type, JArg arg]) (set_values (allEvents s))"

definition namedCalls :: "handler list \<Rightarrow> 'p \<Rightarrow> 'p invocation list" where
  "namedCalls cbs arg = map (\<lambda>callback. Invoke callback [JArg arg]) cbs"

fun callee :: "'p invocation \<Rightarrow> handler" where
  "callee (Invoke cb args) = cb"

text \<open>
  The emitter registers under the name it emits when it has no prefix or adds it on
  registration too.
\<close>

definition namesAgree :: "emitter \<Rightarrow> bool" where
  "namesAgree s = (eventsPrefix s = [] \<or> autoPrefix s)"

subsection \<open>Sequences of calls\<close>

datatype 'p call =
    On string handler
  | Off string handler
  | One string handler
  | Once string handler
  | OnAll handler
  | OffAll handler
  | Emit string 'p

fun perform :: "'p call \<Rightarrow> emitter \<Rightarrow> emitter completion" where
  "perform (On type cb) s = on type cb s"
| "perform (Off type cb) s = off type cb s"
| "perform (One type cb) s = one type cb s"
| "perform (Once type cb) s = once type cb s"
| "perform (OnAll cb) s = onAll cb s"
| "perform (OffAll cb) s = offAll cb s"
| "perform (Emit type arg) s = snd (emit type arg s)"

text \<open>
  A caller that goes on after a throw finds the emitter as the throwing call left it:
  \<open>run\<close> threads the state through every call of the list.
\<close>

fun run :: "'p call list \<Rightarrow> emitter \<Rightarrow> emitter" where
  "run [] s = s"
| "run (c # cs) s = run cs (state_of (perform c s))"

text \<open>Every callback among the once markers of a name is among the callbacks of that name.\<close>

definition onceWithinHandlers :: "emitter \<Rightarrow> string \<Rightarrow> bool" where
  "onceWithinHandlers s k =
     (set (set_values (onceEntries s k)) \<subseteq> set (set_values (entries s k)))"

text \<open>
  The calls that keep that property in a state \<open>s\<close>: \<open>off\<close> of a callback that is not
  marked under the name, \<open>one\<close> under a name whose only marker, if any, is the callback
  itself, \<open>emit\<close> on an emitter that registers under the names it emits, and every call
  of the other methods. \<open>keepsMarkersAlong\<close> asks it of every call of a sequence, in the
  state the call finds.
\<close>

fun keepsMarkers :: "emitter \<Rightarrow> 'p call \<Rightarrow> bool" where
  "keepsMarkers s (On type cb) = True"
| "keepsMarkers s (Off type cb) =
     (\<not> set_has (onceEntries s (getEventName s type (autoPrefix s))) cb)"
| "keepsMarkers s (One type cb) =
     list_all (\<lambda>h. h = cb) (set_values (onceEntries s (getEventName s type (autoPrefix s))))"
| "keepsMarkers s (Once type cb) = True"
| "keepsMarkers s (OnAll cb) = True"
| "keepsMarkers s (OffAll cb) = True"
| "keepsMarkers s (Emit type arg) = namesAgree s"

fun keepsMarkersAlong :: "'p call list \<Rightarrow> emitter \<Rightarrow> bool" where
  "keepsMarkersAlong [] s = True"
| "keepsMarkersAlong (c # cs) s =
     (keepsMarkers s c \<and> keepsMarkersAlong cs (state_of (perform c s)))"

text \<open>
  No \<open>Set\<close> of the emitter lists a callback twice. The entry lists of the model allow it;
  the states that the methods produce do not (\<open>distinct_reachable\<close> below).
\<close>

definition distinctSets :: "emitter \<Rightarrow> bool" where
  "distinctSets s =
     (distinct (set_values (allEvents s)) \<and>
      (\<forall>k. distinct (set_values (entries s k))) \<and>
      (\<forall>k. distinct (set_values (onceEntries s k))))"

section \<open>Termination of the loop\<close>

lemma getEvents_setEvents:
  "getEvents s k' = Value (SetV S') \<Longrightarrow>
   getEvents (setEvents s k' T) k = (if k = k' then Value (SetV T) else getEvents s k)"
  by (auto simp: getEvents_def setEvents_def getProp_def split: if_splits option.splits)

lemma getEvents_setOnce [simp]: "getEvents (setOnce s k C) k' = getEvents s k'"
  by (simp add: getEvents_def setOnce_def)

lemma length_set_delete [simp]: "length (set_delete S cb) = length S"
  by (simp add: set_delete_def)

lemma off_cases:
  assumes "off type cb s = Returned s1"
  obtains (absent) "getEvents s (getEventName s type (autoPrefix s)) = Undefined" "s1 = s"
  | (present) S where "getEvents s (getEventName s type (autoPrefix s)) = Value (SetV S)"
      "s1 = setEvents s (getEventName s type (autoPrefix s)) (set_delete S cb)"
  using assms by (auto simp: off_def Let_def split: lookup.splits jsval.splits)

lemma off_entries_length:
  assumes "off type cb s = Returned s1"
  shows "length (entries s1 k) = length (entries s k)"
  using assms
proof (cases rule: off_cases)
  case absent
  then show ?thesis by simp
next
  case (present S)
  then show ?thesis by (simp add: entries_def getEvents_setEvents)
qed

lemma emit_callback_cases:
  assumes "emit_callback type type' cb s = Returned s1"
  obtains (kept) "s1 = s"
  | (removed) C s2 C2 where "getOnce s type' = Value (SetV C)" "set_has C cb"
      "off type cb s = Returned s2" "getOnce s2 type' = Value (SetV C2)"
      "s1 = setOnce s2 type' (set_delete C2 cb)"
  using assms
  by (auto simp: emit_callback_def split: lookup.splits jsval.splits if_splits completion.splits)

lemma emit_callback_entries_length:
  assumes "emit_callback type type' cb s = Returned s1"
  shows "length (entries s1 k) = length (entries s k)"
  using assms
proof (cases rule: emit_callback_cases)
  case kept
  then show ?thesis by simp
next
  case (removed C s2 C2)
  then show ?thesis using off_entries_length[of type cb s s2 k] by (simp add: entries_def)
qed

termination forEach_events
proof (relation "measure (\<lambda>(type, type', arg, i, s). length (entries s type') - i)", goal_cases)
  case 1
  show ?case by simp
next
  case (2 type type' arg i s v S)
  then show ?case by (simp add: entries_def)
next
  case (3 type type' arg i s v S cb s1)
  then show ?case
    using emit_callback_entries_length[of type type' cb s s1 type'] by (simp add: entries_def)
qed

declare forEach_events.simps [simp del]

section \<open>Sets: values, membership, deletion\<close>

lemma set_values_Nil [simp]: "set_values [] = []"
  by (simp add: set_values_def)

lemma set_values_Cons [simp]:
  "set_values (e # S) = (case e of None \<Rightarrow> set_values S | Some cb \<Rightarrow> cb # set_values S)"
  by (simp add: set_values_def split: option.splits)

lemma set_values_append [simp]: "set_values (A @ B) = set_values A @ set_values B"
  by (simp add: set_values_def)

lemma set_set_values: "set (set_values S) = {cb. Some cb \<in> set S}"
  by (induction S) (auto split: option.splits)

lemma set_has_iff: "set_has S cb \<longleftrightarrow> cb \<in> set (set_values S)"
  by (simp add: set_has_def set_set_values)

lemma set_values_delete: "set_values (set_delete S cb) = removeAll cb (set_values S)"
  by (induction S) (auto simp: set_delete_def split: option.splits)

lemma set_values_add:
  "set_values (set_add S cb) =
     (if cb \<in> set (set_values S) then set_values S else set_values S @ [cb])"
  by (simp add: set_add_def set_has_iff)

lemma distinct_set_add: "distinct (set_values S) \<Longrightarrow> distinct (set_values (set_add S cb))"
  by (simp add: set_values_add)

lemma distinct_set_delete: "distinct (set_values S) \<Longrightarrow> distinct (set_values (set_delete S cb))"
  by (simp add: set_values_delete distinct_removeAll)

lemma set_values_drop:
  "i < length S \<Longrightarrow> S ! i = Some cb \<Longrightarrow>
   set_values (drop i S) = cb # set_values (drop (Suc i) S)"
  by (simp flip: Cons_nth_drop_Suc)

lemma set_values_drop_None:
  "i < length S \<Longrightarrow> S ! i = None \<Longrightarrow> set_values (drop i S) = set_values (drop (Suc i) S)"
  by (simp flip: Cons_nth_drop_Suc)

lemma drop_set_delete:
  assumes "distinct (set_values S)" "i < length S" "S ! i = Some cb"
  shows "drop (Suc i) (set_delete S cb) = drop (Suc i) S"
proof -
  have "S = take i S @ Some cb # drop (Suc i) S"
    using assms(2,3) by (metis id_take_nth_drop)
  then have "set_values S = set_values (take i S) @ cb # set_values (drop (Suc i) S)"
    by (metis set_values_append set_values_Cons option.simps(5))
  with assms(1) have "cb \<notin> set (set_values (drop (Suc i) S))"
    by auto
  then have "Some cb \<notin> set (drop (Suc i) S)"
    by (simp add: set_set_values)
  then have "map (\<lambda>e. if e = Some cb then None else e) (drop (Suc i) S) = drop (Suc i) S"
    by (intro map_idI) auto
  then show ?thesis
    by (simp add: set_delete_def drop_map)
qed

section \<open>The loop of emit, case by case\<close>

lemma entries_Set [simp]: "getEvents s k = Value (SetV S) \<Longrightarrow> entries s k = S"
  by (simp add: entries_def)

lemma emit_callback_entries:
  assumes "getEvents s type' = Value (SetV S)"
  shows "\<exists>S1. getEvents (state_of (emit_callback type type' cb s)) type' = Value (SetV S1) \<and>
           (S1 = S \<or> S1 = set_delete S cb)"
  using assms
  by (auto simp: emit_callback_def off_def Let_def getEvents_setEvents
      split: lookup.splits jsval.splits completion.splits)

lemma forEach_no_set:
  "entries s type' = [] \<Longrightarrow> forEach_events type type' arg i s = ([], Returned s)"
  by (simp add: forEach_events.simps[of type type' arg i s] entries_def
      split: lookup.splits jsval.splits)

lemma forEach_done:
  "\<not> i < length (entries s type') \<Longrightarrow> forEach_events type type' arg i s = ([], Returned s)"
  by (simp add: forEach_events.simps[of type type' arg i s] entries_def
      split: lookup.splits jsval.splits)

lemma forEach_skip:
  "getEvents s type' = Value (SetV S) \<Longrightarrow> i < length S \<Longrightarrow> S ! i = None \<Longrightarrow>
   forEach_events type type' arg i s = forEach_events type type' arg (Suc i) s"
  by (simp add: forEach_events.simps[of type type' arg i s])

lemma forEach_throw:
  "getEvents s type' = Value (SetV S) \<Longrightarrow> i < length S \<Longrightarrow> S ! i = Some cb \<Longrightarrow>
   emit_callback type type' cb s = Thrown e s1 \<Longrightarrow>
   forEach_events type type' arg i s = ([Invoke cb [JArg arg]], Thrown e s1)"
  by (simp add: forEach_events.simps[of type type' arg i s])

lemma forEach_next:
  "getEvents s type' = Value (SetV S) \<Longrightarrow> i < length S \<Longrightarrow> S ! i = Some cb \<Longrightarrow>
   emit_callback type type' cb s = Returned s1 \<Longrightarrow>
   forEach_events type type' arg i s =
     (Invoke cb [JArg arg] # fst (forEach_events type type' arg (Suc i) s1),
      snd (forEach_events type type' arg (Suc i) s1))"
  by (simp add: forEach_events.simps[of type type' arg i s] case_prod_beta)

text \<open>The loop, case by case, as an induction rule.\<close>

lemma forEach_induct [case_names finished skip throws continue]:
  assumes finished: "\<And>i s. \<not> i < length (entries s type') \<Longrightarrow> P i s"
    and skip: "\<And>i s S. getEvents s type' = Value (SetV S) \<Longrightarrow> i < length S \<Longrightarrow> S ! i = None \<Longrightarrow>
        P (Suc i) s \<Longrightarrow> P i s"
    and throws: "\<And>i s S cb e s1. getEvents s type' = Value (SetV S) \<Longrightarrow> i < length S \<Longrightarrow>
        S ! i = Some cb \<Longrightarrow> emit_callback type type' cb s = Thrown e s1 \<Longrightarrow> P i s"
    and continue: "\<And>i s S cb s1. getEvents s type' = Value (SetV S) \<Longrightarrow> i < length S \<Longrightarrow>
        S ! i = Some cb \<Longrightarrow> emit_callback type type' cb s = Returned s1 \<Longrightarrow>
        P (Suc i) s1 \<Longrightarrow> P i s"
  shows "P i s"
proof (induction "length (entries s type') - i" arbitrary: i s rule: less_induct)
  case less
  show ?case
  proof (cases "i < length (entries s type')")
    case False
    then show ?thesis by (rule finished)
  next
    case True
    then obtain S where S: "getEvents s type' = Value (SetV S)" "i < length S"
      by (auto simp: entries_def split: lookup.splits jsval.splits)
    show ?thesis
    proof (cases "S ! i")
      case None
      have "P (Suc i) s"
        using S by (intro less) simp
      with S None show ?thesis by (rule skip)
    next
      case (Some cb)
      show ?thesis
      proof (cases "emit_callback type type' cb s")
        case (Returned s1)
        have "P (Suc i) s1"
          using S emit_callback_entries_length[OF Returned, of type'] by (intro less) simp
        with S Some Returned show ?thesis by (rule continue)
      next
        case (Thrown e s1)
        with S Some show ?thesis by (rule throws)
      qed
    qed
  qed
qed

lemma forEach_calls:
  "distinct (set_values (entries s type')) \<Longrightarrow>
   returned (snd (forEach_events type type' arg i s)) \<Longrightarrow>
   fst (forEach_events type type' arg i s) = namedCalls (set_values (drop i (entries s type'))) arg"
proof (induction i s rule: forEach_induct[where type = type and type' = type'])
  case (finished i s)
  then show ?case by (simp add: forEach_done namedCalls_def)
next
  case (skip i s S)
  then show ?case by (simp add: forEach_skip set_values_drop_None)
next
  case (throws i s S cb e s1)
  then show ?case by (simp add: forEach_throw)
next
  case (continue i s S cb s1)
  from emit_callback_entries[OF continue(1), of type cb] continue(4)
  obtain S1 where S1: "getEvents s1 type' = Value (SetV S1)" "S1 = S \<or> S1 = set_delete S cb"
    by auto
  have d: "distinct (set_values S)" using continue.prems(1) continue(1) by simp
  have d1: "distinct (set_values (entries s1 type'))"
    using S1 d by (auto simp: distinct_set_delete)
  have dr: "drop (Suc i) (entries s1 type') = drop (Suc i) S"
    using S1 d continue(2,3) by (auto simp: drop_set_delete)
  have r1: "returned (snd (forEach_events type type' arg (Suc i) s1))"
    using continue.prems(2) continue(1-4) by (simp add: forEach_next)
  from continue.IH[OF d1 r1] dr continue(1-4) show ?case
    by (simp add: forEach_next set_values_drop namedCalls_def)
qed

section \<open>What emit leaves alone, when it returns, what it calls\<close>

lemma setEvents_frame [simp]:
  "eventsPrefix (setEvents s k S) = eventsPrefix s"
  "autoPrefix (setEvents s k S) = autoPrefix s"
  "allEvents (setEvents s k S) = allEvents s"
  "onceCallbacks (setEvents s k S) = onceCallbacks s"
  by (simp_all add: setEvents_def)

lemma setOnce_frame [simp]:
  "eventsPrefix (setOnce s k S) = eventsPrefix s"
  "autoPrefix (setOnce s k S) = autoPrefix s"
  "allEvents (setOnce s k S) = allEvents s"
  "events (setOnce s k S) = events s"
  "eventsProto (setOnce s k S) = eventsProto s"
  by (simp_all add: setOnce_def)

lemma getOnce_setEvents [simp]: "getOnce (setEvents s k S) k' = getOnce s k'"
  by (simp add: getOnce_def)

lemma getOnce_setOnce: 
  "getOnce (setOnce s k C) k' = (if k' = k \<and> k \<noteq> ''__proto__'' then Value (SetV C) else getOnce s k')"
  by (auto simp: getOnce_def setOnce_def getProp_def)

lemma getOnce_Set_not_proto: "getOnce s k = Value (SetV C) \<Longrightarrow> k \<noteq> ''__proto__''"
  by (auto simp: getOnce_def getProp_def)

lemma getEventName_cong:
  "eventsPrefix s1 = eventsPrefix s \<Longrightarrow> getEventName s1 type b = getEventName s type b"
  by (simp add: getEventName_def)

lemma off_frame:
  "eventsPrefix (state_of (off type cb s)) = eventsPrefix s"
  "autoPrefix (state_of (off type cb s)) = autoPrefix s"
  "allEvents (state_of (off type cb s)) = allEvents s"
  "onceCallbacks (state_of (off type cb s)) = onceCallbacks s"
  by (simp_all add: off_def Let_def split: lookup.splits jsval.splits)

lemma emit_callback_frame:
  "eventsPrefix (state_of (emit_callback type type' cb s)) = eventsPrefix s"
  "autoPrefix (state_of (emit_callback type type' cb s)) = autoPrefix s"
  "allEvents (state_of (emit_callback type type' cb s)) = allEvents s"
  using off_frame[of type cb s]
  by (auto simp: emit_callback_def split: lookup.splits jsval.splits completion.splits)

lemma namesAgree_getEventName:
  "namesAgree s \<Longrightarrow> getEventName s type (autoPrefix s) = getEventName s type True"
  by (auto simp: namesAgree_def getEventName_def)

lemma emit_callback_returns:
  assumes "namesAgree s" "getEvents s (getEventName s type True) = Value (SetV S)"
  shows "returned (emit_callback type (getEventName s type True) cb s)"
  using assms
  by (auto simp: emit_callback_def off_def Let_def namesAgree_getEventName
      split: lookup.splits jsval.splits)

lemma forEach_returns:
  "namesAgree s \<Longrightarrow> type' = getEventName s type True \<Longrightarrow>
   returned (snd (forEach_events type type' arg i s))"
proof (induction i s rule: forEach_induct[where type = type and type' = type'])
  case (finished i s)
  then show ?case by (simp add: forEach_done)
next
  case (skip i s S)
  then show ?case by (simp add: forEach_skip)
next
  case (throws i s S cb e s1)
  then show ?case using emit_callback_returns[of s type S cb] by simp
next
  case (continue i s S cb s1)
  have "eventsPrefix s1 = eventsPrefix s" "autoPrefix s1 = autoPrefix s"
    using emit_callback_frame(1,2)[of type type' cb s] continue(4) by simp_all
  then have "namesAgree s1" "type' = getEventName s1 type True"
    using continue.prems by (simp_all add: namesAgree_def getEventName_def)
  from continue.IH[OF this] continue(1-4) show ?case
    by (simp add: forEach_next)
qed

lemma forEach_named:
  "\<forall>c \<in> set (fst (forEach_events type type' arg i s)). \<exists>cb. c = Invoke cb [JArg arg]"
proof (induction i s rule: forEach_induct[where type = type and type' = type'])
  case (finished i s)
  then show ?case by (simp add: forEach_done)
next
  case (skip i s S)
  then show ?case by (simp add: forEach_skip)
next
  case (throws i s S cb e s1)
  then show ?case by (simp add: forEach_throw)
next
  case (continue i s S cb s1)
  then show ?case by (simp add: forEach_next)
qed

lemma emit_unfold:
  "emit type arg s =
     (case getEvents s (getEventName s type True) of
        GetterThrows \<Rightarrow> (universalCalls s type arg, Thrown TypeError s)
      | Undefined \<Rightarrow> (universalCalls s type arg, Returned s)
      | Value Builtin \<Rightarrow> (universalCalls s type arg, Thrown TypeError s)
      | Value (SetV S) \<Rightarrow>
          (universalCalls s type arg @ fst (forEach_events type (getEventName s type True) arg 0 s),
           snd (forEach_events type (getEventName s type True) arg 0 s)))"
  by (simp add: emit_def universalCalls_def Let_def case_prod_beta
      split: lookup.splits jsval.splits)

lemma emit_calls:
  assumes "distinct (set_values (entries s (getEventName s type True)))"
    "returned (snd (emit type arg s))"
  shows "fst (emit type arg s) =
     universalCalls s type arg @ namedCalls (set_values (entries s (getEventName s type True))) arg"
  using assms forEach_calls[of s "getEventName s type True" type arg 0]
  by (auto simp: emit_unfold entries_def namedCalls_def split: lookup.splits jsval.splits)

lemma emit_returns:
  assumes "namesAgree s" "getEvents s (getEventName s type True) = Value (SetV S)"
  shows "returned (snd (emit type arg s))"
  using assms forEach_returns[of s "getEventName s type True" type arg 0]
  by (simp add: emit_unfold)

section \<open>What on and one store\<close>

lemma on_frame:
  "eventsPrefix (state_of (on type cb s)) = eventsPrefix s"
  "autoPrefix (state_of (on type cb s)) = autoPrefix s"
  "allEvents (state_of (on type cb s)) = allEvents s"
  "onceCallbacks (state_of (on type cb s)) = onceCallbacks s"
  by (simp_all add: on_def Let_def split: option.splits lookup.splits jsval.splits)

lemma one_frame:
  "eventsPrefix (state_of (one type cb s)) = eventsPrefix s"
  "autoPrefix (state_of (one type cb s)) = autoPrefix s"
  "allEvents (state_of (one type cb s)) = allEvents s"
  "onceCallbacks (state_of (one type cb s)) = onceCallbacks s"
  by (simp_all add: one_def Let_def)

lemma getEvents_setEvents_same [simp]: "getEvents (setEvents s k S) k = Value (SetV S)"
  by (simp add: getEvents_def setEvents_def getProp_def)

lemma one_Returned:
  "one type cb s = Returned s2 \<Longrightarrow>
   getEvents s2 (getEventName s type (autoPrefix s)) = Value (SetV [Some cb])"
  by (auto simp: one_def Let_def split: if_splits)

lemma one_returns_x: "returned (one ''x'' cb s)"
  by (simp add: one_def Let_def getEventName_def)

lemma set_add_idem [simp]: "set_add (set_add S cb) cb = set_add S cb"
  by (simp add: set_add_def set_has_def)

lemma getProp_Set_cases:
  assumes "getProp pr own k = Value (SetV S)"
  obtains (proto) "k = ''__proto__''" "pr = Some S"
  | (own) "k \<noteq> ''__proto__''" "own k = Some (SetV S)"
  using assms by (auto simp: getProp_def split: if_splits option.splits)

lemma getProp_Undefined:
  "getProp pr own k = Undefined \<Longrightarrow> k \<noteq> ''__proto__'' \<and> own k = None"
  by (auto simp: getProp_def split: if_splits option.splits)

lemma getProp_upd_same:
  "k \<noteq> ''__proto__'' \<Longrightarrow> getProp pr (own(k \<mapsto> v)) k = Value v"
  by (simp add: getProp_def)

lemma ensureSet_Value:
  assumes "getProp pr own k = Value v"
  shows "\<exists>own'. ensureSet pr own k = Some own' \<and> getProp pr own' k = Value v"
proof (cases "k = ''__proto__''")
  case True
  with assms show ?thesis by (simp add: ensureSet_def)
next
  case False
  with assms show ?thesis by (simp add: ensureSet_def getProp_upd_same)
qed

lemma on_Builtin:
  assumes "getEvents s (getEventName s type (autoPrefix s)) = Value Builtin"
  shows "\<not> returned (on type cb s)"
proof -
  from assms ensureSet_Value[of "eventsProto s" "events s" _ Builtin]
  obtain own' where "ensureSet (eventsProto s) (events s) (getEventName s type (autoPrefix s)) = Some own'"
    "getProp (eventsProto s) own' (getEventName s type (autoPrefix s)) = Value Builtin"
    unfolding getEvents_def by blast
  then show ?thesis
    by (simp add: on_def Let_def getEvents_def)
qed

lemma on_cases:
  assumes "on type cb s = Returned s1"
  obtains (fresh) "getEvents s (getEventName s type (autoPrefix s)) = Undefined"
      "s1 = s\<lparr>events := (events s)(getEventName s type (autoPrefix s) \<mapsto> SetV [Some cb])\<rparr>"
  | (own) S where "getEventName s type (autoPrefix s) \<noteq> ''__proto__''"
      "events s (getEventName s type (autoPrefix s)) = Some (SetV S)"
      "s1 = s\<lparr>events := (events s)(getEventName s type (autoPrefix s) \<mapsto> SetV (set_add S cb))\<rparr>"
  | (proto) S where "getEventName s type (autoPrefix s) = ''__proto__''"
      "eventsProto s = Some S" "s1 = s\<lparr>eventsProto := Some (set_add S cb)\<rparr>"
proof (cases "getEvents s (getEventName s type (autoPrefix s))")
  case Undefined
  then have "getEventName s type (autoPrefix s) \<noteq> ''__proto__''"
    by (simp add: getEvents_def getProp_Undefined)
  with Undefined assms have "s1 = s\<lparr>events := (events s)(getEventName s type (autoPrefix s) \<mapsto> SetV [Some cb])\<rparr>"
    by (simp add: on_def Let_def ensureSet_def getEvents_def getProp_def setEvents_def
        set_add_def set_has_def)
  with Undefined show ?thesis by (rule fresh)
next
  case (Value v)
  show ?thesis
  proof (cases v)
    case (SetV S)
    with Value have "getProp (eventsProto s) (events s) (getEventName s type (autoPrefix s)) = Value (SetV S)"
      by (simp add: getEvents_def)
    then show ?thesis
    proof (cases rule: getProp_Set_cases)
      case proto
      with assms have "s1 = s\<lparr>eventsProto := Some (set_add S cb)\<rparr>"
        by (simp add: on_def Let_def ensureSet_def getEvents_def getProp_def setEvents_def)
      with proto show ?thesis by (intro that(3))
    next
      case own
      with assms have "s1 = s\<lparr>events := (events s)(getEventName s type (autoPrefix s) \<mapsto> SetV (set_add S cb))\<rparr>"
        by (simp add: on_def Let_def ensureSet_def getEvents_def getProp_def setEvents_def)
      with own show ?thesis by (intro that(2))
    qed
  next
    case Builtin
    with Value assms on_Builtin[of s type cb] show ?thesis
      by simp
  qed
next
  case GetterThrows
  with assms show ?thesis
    by (simp add: on_def Let_def ensureSet_def getEvents_def)
qed

lemma on_Returned:
  assumes "on type cb s = Returned s1"
  shows "getEvents s1 (getEventName s type (autoPrefix s)) =
           Value (SetV (set_add (entries s (getEventName s type (autoPrefix s))) cb))"
proof -
  define k where "k = getEventName s type (autoPrefix s)"
  from assms have "getEvents s1 k = Value (SetV (set_add (entries s k) cb))"
  proof (cases rule: on_cases)
    case fresh
    from fresh(1) have "k \<noteq> ''__proto__''" "entries s k = []"
      by (simp_all add: getEvents_def getProp_Undefined k_def entries_def)
    then show ?thesis
      unfolding fresh(2) k_def[symmetric]
      by (simp add: getEvents_def getProp_upd_same set_add_def set_has_def)
  next
    case (own S)
    from own(1,2) have "k \<noteq> ''__proto__''" "getEvents s k = Value (SetV S)"
      by (simp_all add: getEvents_def getProp_def k_def)
    then show ?thesis
      unfolding own(3) k_def[symmetric]
      by (simp add: getEvents_def getProp_upd_same)
  next
    case (proto S)
    from proto(1,2) have "k = ''__proto__''" "getEvents s k = Value (SetV S)"
      by (simp_all add: getEvents_def getProp_def k_def)
    then show ?thesis
      unfolding proto(3)
      by (simp add: getEvents_def getProp_def)
  qed
  then show ?thesis by (simp add: k_def)
qed

lemma on_idem:
  assumes "on type cb s = Returned s1"
  shows "on type cb s1 = Returned s1"
proof -
  define k where "k = getEventName s type (autoPrefix s)"
  have k1: "getEventName s1 type (autoPrefix s1) = k"
    using on_frame(1,2)[of type cb s] assms by (simp add: getEventName_def k_def)
  from assms show ?thesis
  proof (cases rule: on_cases)
    case fresh
    then have "k \<noteq> ''__proto__''"
      by (simp add: getEvents_def getProp_Undefined k_def)
    with fresh(2)[folded k_def] show ?thesis
      unfolding on_def Let_def k1
      by (simp add: ensureSet_def getEvents_def getProp_def setEvents_def set_add_def set_has_def)
  next
    case (own S)
    from own(1,3)[folded k_def] show ?thesis
      unfolding on_def Let_def k1
      by (simp add: ensureSet_def getEvents_def getProp_def setEvents_def)
  next
    case (proto S)
    from proto(1,3)[folded k_def] show ?thesis
      unfolding on_def Let_def k1
      by (simp add: ensureSet_def getEvents_def getProp_def setEvents_def)
  qed
qed

section \<open>on, case by case\<close>

lemma getProp_upd_other: "k' \<noteq> k \<Longrightarrow> getProp pr (own(k \<mapsto> v)) k' = getProp pr own k'"
  by (simp add: getProp_def)

lemma getProp_Builtin_upd:
  "getProp pr own k = Value Builtin \<Longrightarrow> getProp pr (own(k \<mapsto> Builtin)) k' = getProp pr own k'"
  by (cases "k' = k") (auto simp: getProp_upd_other getProp_def)

lemma on_unfold:
  "on type cb s =
     (case getEvents s (getEventName s type (autoPrefix s)) of
        Undefined \<Rightarrow>
          Returned (s\<lparr>events := (events s)(getEventName s type (autoPrefix s) \<mapsto> SetV [Some cb])\<rparr>)
      | Value (SetV S) \<Rightarrow>
          Returned (setEvents s (getEventName s type (autoPrefix s)) (set_add S cb))
      | Value Builtin \<Rightarrow>
          Thrown TypeError
            (if getEventName s type (autoPrefix s) = ''__proto__'' then s
             else s\<lparr>events := (events s)(getEventName s type (autoPrefix s) \<mapsto> Builtin)\<rparr>)
      | GetterThrows \<Rightarrow> Thrown TypeError s)"
proof -
  define k where "k = getEventName s type (autoPrefix s)"
  have "on type cb s =
     (case getEvents s k of
        Undefined \<Rightarrow> Returned (s\<lparr>events := (events s)(k \<mapsto> SetV [Some cb])\<rparr>)
      | Value (SetV S) \<Rightarrow> Returned (setEvents s k (set_add S cb))
      | Value Builtin \<Rightarrow>
          Thrown TypeError
            (if k = ''__proto__'' then s else s\<lparr>events := (events s)(k \<mapsto> Builtin)\<rparr>)
      | GetterThrows \<Rightarrow> Thrown TypeError s)"
  proof (cases "getEvents s k")
    case Undefined
    then have u: "getProp (eventsProto s) (events s) k = Undefined" and "k \<noteq> ''__proto__''"
      by (simp_all add: getEvents_def getProp_Undefined)
    then show ?thesis
      unfolding on_def Let_def k_def[symmetric] ensureSet_def
      by (simp add: Undefined getEvents_def getProp_upd_same setEvents_def set_add_def set_has_def)
  next
    case (Value v)
    show ?thesis
    proof (cases v)
      case (SetV S)
      with Value have g: "getProp (eventsProto s) (events s) k = Value (SetV S)"
        by (simp add: getEvents_def)
      then show ?thesis
      proof (cases rule: getProp_Set_cases)
        case proto
        with g show ?thesis
          unfolding on_def Let_def k_def[symmetric] ensureSet_def
          by (simp add: Value SetV getEvents_def)
      next
        case own
        then have "(events s)(k \<mapsto> SetV S) = events s"
          by (simp add: fun_upd_idem)
        with own g show ?thesis
          unfolding on_def Let_def k_def[symmetric] ensureSet_def
          by (simp add: Value SetV getEvents_def)
      qed
    next
      case Builtin
      with Value have g: "getProp (eventsProto s) (events s) k = Value Builtin"
        by (simp add: getEvents_def)
      show ?thesis
      proof (cases "k = ''__proto__''")
        case True
        with g show ?thesis
          unfolding on_def Let_def k_def[symmetric] ensureSet_def
          by (simp add: Value Builtin getEvents_def)
      next
        case False
        with g show ?thesis
          unfolding on_def Let_def k_def[symmetric] ensureSet_def
          by (simp add: Value Builtin getEvents_def getProp_upd_same)
      qed
    qed
  next
    case GetterThrows
    then show ?thesis
      unfolding on_def Let_def k_def[symmetric] ensureSet_def
      by (simp add: getEvents_def)
  qed
  then show ?thesis unfolding k_def .
qed

lemma getEvents_on:
  "getEvents (state_of (on type cb s)) k' =
     (case getEvents s (getEventName s type (autoPrefix s)) of
        Undefined \<Rightarrow>
          if k' = getEventName s type (autoPrefix s) then Value (SetV [Some cb]) else getEvents s k'
      | Value (SetV S) \<Rightarrow>
          if k' = getEventName s type (autoPrefix s) then Value (SetV (set_add S cb))
          else getEvents s k'
      | _ \<Rightarrow> getEvents s k')"
proof (cases "getEvents s (getEventName s type (autoPrefix s))")
  case Undefined
  then have "getEventName s type (autoPrefix s) \<noteq> ''__proto__''"
    by (simp add: getEvents_def getProp_Undefined)
  with Undefined show ?thesis
    by (simp add: on_unfold getEvents_def getProp_upd_same getProp_upd_other)
next
  case (Value v)
  show ?thesis
  proof (cases v)
    case (SetV S)
    with Value show ?thesis
      by (simp add: on_unfold getEvents_setEvents)
  next
    case Builtin
    with Value have "getProp (eventsProto s) (events s) (getEventName s type (autoPrefix s)) = Value Builtin"
      by (simp add: getEvents_def)
    with Value Builtin show ?thesis
      by (simp add: on_unfold getEvents_def getProp_Builtin_upd)
  qed
next
  case GetterThrows
  then show ?thesis by (simp add: on_unfold)
qed

lemma entries_on_mono:
  "set (set_values (entries s k')) \<subseteq> set (set_values (entries (state_of (on type cb s)) k'))"
  by (auto simp: entries_def getEvents_on set_values_add split: lookup.splits jsval.splits)

lemma onceEntries_on [simp]: "onceEntries (state_of (on type cb s)) k' = onceEntries s k'"
  by (simp add: onceEntries_def getOnce_def on_frame)

section \<open>once is on, then the marker\<close>

lemma once_on:
  "once type cb s =
     (case on type cb s of
        Thrown e s1 \<Rightarrow> Thrown e s1
      | Returned s2 \<Rightarrow> mark (getEventName s type (autoPrefix s)) cb s2)"
  unfolding once_def on_def mark_def Let_def
  by (simp split: option.splits lookup.splits jsval.splits)

lemma getOnce_not_GetterThrows [simp]: "getOnce s k \<noteq> GetterThrows"
  by (simp add: getOnce_def getProp_def split: option.splits)

lemma mark_unfold:
  "mark k cb s2 =
     (case getOnce s2 k of
        Undefined \<Rightarrow> Returned (setOnce s2 k [Some cb])
      | Value (SetV C) \<Rightarrow> Returned (setOnce s2 k (set_add C cb))
      | _ \<Rightarrow>
          Thrown TypeError
            (if k = ''__proto__'' then s2
             else s2\<lparr>onceCallbacks := (onceCallbacks s2)(k \<mapsto> Builtin)\<rparr>))"
proof (cases "getOnce s2 k")
  case Undefined
  then have u: "getProp None (onceCallbacks s2) k = Undefined" and "k \<noteq> ''__proto__''"
    by (simp_all add: getOnce_def getProp_Undefined)
  then show ?thesis
    unfolding mark_def Let_def ensureSet_def
    by (simp add: Undefined getOnce_def getProp_upd_same setOnce_def set_add_def set_has_def)
next
  case (Value v)
  show ?thesis
  proof (cases v)
    case (SetV C)
    with Value have g: "getProp None (onceCallbacks s2) k = Value (SetV C)"
      by (simp add: getOnce_def)
    then show ?thesis
    proof (cases rule: getProp_Set_cases)
      case proto
      then show ?thesis by simp
    next
      case own
      then have "(onceCallbacks s2)(k \<mapsto> SetV C) = onceCallbacks s2"
        by (simp add: fun_upd_idem)
      with own g show ?thesis
        unfolding mark_def Let_def ensureSet_def
        by (simp add: Value SetV getOnce_def)
    qed
  next
    case Builtin
    with Value have g: "getProp None (onceCallbacks s2) k = Value Builtin"
      by (simp add: getOnce_def)
    show ?thesis
    proof (cases "k = ''__proto__''")
      case True
      with g show ?thesis
        unfolding mark_def Let_def ensureSet_def
        by (simp add: Value Builtin getOnce_def)
    next
      case False
      with g show ?thesis
        unfolding mark_def Let_def ensureSet_def
        by (simp add: Value Builtin getOnce_def getProp_upd_same)
    qed
  qed
next
  case GetterThrows
  then show ?thesis by simp
qed

lemma mark_frame:
  "eventsPrefix (state_of (mark k cb s)) = eventsPrefix s"
  "autoPrefix (state_of (mark k cb s)) = autoPrefix s"
  "allEvents (state_of (mark k cb s)) = allEvents s"
  "events (state_of (mark k cb s)) = events s"
  "eventsProto (state_of (mark k cb s)) = eventsProto s"
  by (simp_all add: mark_unfold split: lookup.splits jsval.splits)

lemma getOnce_mark:
  "getOnce (state_of (mark k cb s)) k' =
     (case getOnce s k of
        Undefined \<Rightarrow> if k' = k then Value (SetV [Some cb]) else getOnce s k'
      | Value (SetV C) \<Rightarrow> if k' = k then Value (SetV (set_add C cb)) else getOnce s k'
      | _ \<Rightarrow> getOnce s k')"
proof (cases "getOnce s k")
  case Undefined
  then have "k \<noteq> ''__proto__''"
    by (simp add: getOnce_def getProp_Undefined)
  with Undefined show ?thesis
    by (simp add: mark_unfold getOnce_setOnce)
next
  case (Value v)
  show ?thesis
  proof (cases v)
    case (SetV C)
    with Value have "k \<noteq> ''__proto__''"
      by (simp add: getOnce_Set_not_proto)
    with Value SetV show ?thesis
      by (simp add: mark_unfold getOnce_setOnce)
  next
    case Builtin
    with Value have "getProp None (onceCallbacks s) k = Value Builtin"
      by (simp add: getOnce_def)
    with Value Builtin show ?thesis
      by (simp add: mark_unfold getOnce_def getProp_Builtin_upd)
  qed
next
  case GetterThrows
  then show ?thesis by simp
qed

lemma entries_mark [simp]: "entries (state_of (mark k cb s)) k' = entries s k'"
  by (simp add: entries_def getEvents_def mark_frame)

section \<open>The entries under a name\<close>

lemma getProp_no_Set:
  "k \<noteq> ''__proto__'' \<Longrightarrow> own k = None \<Longrightarrow> getProp pr own k \<noteq> Value (SetV S)"
  by (auto simp: getProp_def split: option.splits)

lemma getProp_own:
  "k \<noteq> ''__proto__'' \<Longrightarrow> own k = Some v \<Longrightarrow> getProp pr own k = Value v"
  by (simp add: getProp_def)

lemma entries_own:
  "k \<noteq> ''__proto__'' \<Longrightarrow>
   entries s k = (case events s k of Some (SetV S) \<Rightarrow> S | _ \<Rightarrow> [])"
proof (cases "events s k")
  case None
  then show "k \<noteq> ''__proto__'' \<Longrightarrow> ?thesis"
    using getProp_no_Set[of k "events s" "eventsProto s"]
    by (auto simp: entries_def getEvents_def split: lookup.splits jsval.splits)
next
  case (Some v)
  then show "k \<noteq> ''__proto__'' \<Longrightarrow> ?thesis"
    by (simp add: entries_def getEvents_def getProp_own split: jsval.splits)
qed

lemma entries_proto:
  "entries s ''__proto__'' = (case eventsProto s of Some S \<Rightarrow> S | None \<Rightarrow> [])"
  by (simp add: entries_def getEvents_def getProp_def split: option.splits)

lemma entries_setEvents_any:
  "entries (setEvents s k S) k' = (if k' = k then S else entries s k')"
proof (cases "k' = k")
  case True
  then show ?thesis by (simp add: entries_def)
next
  case False
  show ?thesis
  proof (cases "k' = ''__proto__''")
    case True
    with False show ?thesis by (simp add: entries_proto setEvents_def)
  next
    case False
    with \<open>k' \<noteq> k\<close> show ?thesis by (simp add: entries_own setEvents_def)
  qed
qed

section \<open>Once markers within the callbacks of a name\<close>

lemma inv_on:
  "onceWithinHandlers s k' \<Longrightarrow> onceWithinHandlers (state_of (on type cb s)) k'"
  using entries_on_mono[of s k' type cb] by (auto simp: onceWithinHandlers_def)

lemma on_Returned_member:
  assumes "on type cb s = Returned s2"
  shows "cb \<in> set (set_values (entries s2 (getEventName s type (autoPrefix s))))"
  using on_Returned[OF assms] by (simp add: set_values_add)

lemma inv_once:
  assumes "onceWithinHandlers s k'"
  shows "onceWithinHandlers (state_of (once type cb s)) k'"
proof (cases "on type cb s")
  case (Thrown e s1)
  with inv_on[OF assms, of type cb] show ?thesis by (simp add: once_on)
next
  case (Returned s2)
  let ?k = "getEventName s type (autoPrefix s)"
  have i2: "onceWithinHandlers s2 k'"
    using inv_on[OF assms, of type cb] Returned by simp
  have m: "cb \<in> set (set_values (entries s2 ?k))"
    using Returned by (rule on_Returned_member)
  have "onceWithinHandlers (state_of (mark ?k cb s2)) k'"
    using i2 m
    by (auto simp: onceWithinHandlers_def onceEntries_def getOnce_mark set_values_add
        split: lookup.splits jsval.splits if_splits)
  with Returned show ?thesis by (simp add: once_on)
qed

lemma inv_onAll: "onceWithinHandlers s k' \<Longrightarrow> onceWithinHandlers (state_of (onAll cb s)) k'"
  by (simp add: onceWithinHandlers_def onAll_def entries_def onceEntries_def getEvents_def getOnce_def)

lemma inv_offAll: "onceWithinHandlers s k' \<Longrightarrow> onceWithinHandlers (state_of (offAll cb s)) k'"
  by (simp add: onceWithinHandlers_def offAll_def entries_def onceEntries_def getEvents_def getOnce_def)

lemma off_unfold:
  "off type cb s =
     (case getEvents s (getEventName s type (autoPrefix s)) of
        Undefined \<Rightarrow> Returned s
      | Value (SetV S) \<Rightarrow>
          Returned (setEvents s (getEventName s type (autoPrefix s)) (set_delete S cb))
      | _ \<Rightarrow> Thrown TypeError s)"
  by (simp add: off_def Let_def split: lookup.splits jsval.splits)

lemma emit_callback_agree:
  assumes "namesAgree s"
  shows "state_of (emit_callback type (getEventName s type True) cb s) =
     (case getOnce s (getEventName s type True) of
        Value (SetV C) \<Rightarrow>
          if set_has C cb then
            (case getEvents s (getEventName s type True) of
               Undefined \<Rightarrow> setOnce s (getEventName s type True) (set_delete C cb)
             | Value (SetV S) \<Rightarrow>
                 setOnce (setEvents s (getEventName s type True) (set_delete S cb))
                   (getEventName s type True) (set_delete C cb)
             | _ \<Rightarrow> s)
          else s
      | _ \<Rightarrow> s)"
  using assms
  by (simp add: emit_callback_def off_unfold namesAgree_getEventName
      split: lookup.splits jsval.splits)

lemma entries_setOnce [simp]: "entries (setOnce s k C) k' = entries s k'"
  by (simp add: entries_def)

lemma onceEntries_setEvents [simp]: "onceEntries (setEvents s k S) k' = onceEntries s k'"
  by (simp add: onceEntries_def)

lemma onceEntries_setOnce:
  "getOnce s k = Value (SetV C) \<Longrightarrow>
   onceEntries (setOnce s k C') k' = (if k' = k then C' else onceEntries s k')"
  using getOnce_Set_not_proto[of s k C] by (simp add: onceEntries_def getOnce_setOnce)

lemma entries_setEvents:
  "getEvents s k = Value (SetV S) \<Longrightarrow>
   entries (setEvents s k S') k' = (if k' = k then S' else entries s k')"
  by (simp add: entries_def getEvents_setEvents)

lemma onceEntries_Set [simp]: "getOnce s k = Value (SetV C) \<Longrightarrow> onceEntries s k = C"
  by (simp add: onceEntries_def)

lemma inv_emit_callback:
  assumes "namesAgree s" "onceWithinHandlers s k'"
  shows "onceWithinHandlers (state_of (emit_callback type (getEventName s type True) cb s)) k'"
proof -
  let ?k = "getEventName s type True"
  show ?thesis
  proof (cases "getOnce s ?k")
    case (Value v)
    show ?thesis
    proof (cases v)
      case (SetV C)
      note C = Value[unfolded SetV]
      show ?thesis
      proof (cases "set_has C cb")
        case True
        show ?thesis
        proof (cases "getEvents s ?k")
          case Undefined
          with C True assms show ?thesis
            by (auto simp: emit_callback_agree onceWithinHandlers_def onceEntries_setOnce
                set_values_delete)
        next
          case (Value w)
          show ?thesis
          proof (cases w)
            case (SetV S)
            with Value have S: "getEvents s ?k = Value (SetV S)" by simp
            have C': "getOnce (setEvents s ?k (set_delete S cb)) ?k = Value (SetV C)"
              using C by simp
            from C True S assms(2) show ?thesis
              by (auto simp: emit_callback_agree[OF assms(1)] onceWithinHandlers_def
                  onceEntries_setOnce[OF C'] entries_setEvents[OF S] set_values_delete)
          next
            case Builtin
            with Value C True assms show ?thesis
              by (simp add: emit_callback_agree)
          qed
        next
          case GetterThrows
          with C True assms show ?thesis
            by (simp add: emit_callback_agree)
        qed
      next
        case False
        with C assms show ?thesis by (simp add: emit_callback_agree)
      qed
    next
      case Builtin
      with Value assms show ?thesis by (simp add: emit_callback_agree)
    qed
  qed (use assms in \<open>simp_all add: emit_callback_agree\<close>)
qed


lemma forEach_preserves:
  assumes step: "\<And>cb s. P s \<Longrightarrow> P (state_of (emit_callback type type' cb s))"
    and "P s"
  shows "P (state_of (snd (forEach_events type type' arg i s)))"
  using assms(2)
proof (induction i s rule: forEach_induct[where type = type and type' = type'])
  case (finished i s)
  then show ?case by (simp add: forEach_done)
next
  case (skip i s S)
  then show ?case by (simp add: forEach_skip)
next
  case (throws i s S cb e s1)
  with step[of s cb] show ?case by (simp add: forEach_throw)
next
  case (continue i s S cb s1)
  with step[of s cb] show ?case by (simp add: forEach_next)
qed

lemma emit_preserves:
  assumes "\<And>cb s. P s \<Longrightarrow> P (state_of (emit_callback type (getEventName s0 type True) cb s))"
    and "P s0"
  shows "P (state_of (snd (emit type arg s0)))"
  using assms forEach_preserves[where P = P and type = type and type' = "getEventName s0 type True"
      and arg = arg and i = 0 and s = s0]
  by (simp add: emit_unfold split: lookup.splits jsval.splits)

lemma emit_frame:
  "eventsPrefix (state_of (snd (emit type arg s))) = eventsPrefix s \<and>
   autoPrefix (state_of (snd (emit type arg s))) = autoPrefix s \<and>
   allEvents (state_of (snd (emit type arg s))) = allEvents s"
  by (rule emit_preserves[where P = "\<lambda>t. eventsPrefix t = eventsPrefix s \<and>
        autoPrefix t = autoPrefix s \<and> allEvents t = allEvents s"])
    (simp_all add: emit_callback_frame)

lemma inv_emit:
  assumes "namesAgree s" "\<forall>k. onceWithinHandlers s k"
  shows "onceWithinHandlers (state_of (snd (emit type arg s))) k'"
proof -
  let ?P = "\<lambda>t. eventsPrefix t = eventsPrefix s \<and> autoPrefix t = autoPrefix s \<and>
      (\<forall>k. onceWithinHandlers t k)"
  have "?P (state_of (snd (emit type arg s)))"
  proof (rule emit_preserves[where P = ?P])
    fix cb t
    assume t: "?P t"
    then have a: "namesAgree t" and n: "getEventName t type True = getEventName s type True"
      using assms(1) by (simp_all add: namesAgree_def getEventName_def)
    have "\<forall>k. onceWithinHandlers (state_of (emit_callback type (getEventName t type True) cb t)) k"
      using inv_emit_callback[OF a] t by blast
    with t show "?P (state_of (emit_callback type (getEventName s type True) cb t))"
      by (simp add: n emit_callback_frame)
  next
    show "?P s" using assms(2) by simp
  qed
  then show ?thesis by blast
qed

lemma once_frame:
  "eventsPrefix (state_of (once type cb s)) = eventsPrefix s"
  "autoPrefix (state_of (once type cb s)) = autoPrefix s"
  "allEvents (state_of (once type cb s)) = allEvents s"
  using on_frame(1,2,3)[of type cb s]
  by (auto simp: once_on mark_frame split: completion.splits)

lemma perform_frame:
  "eventsPrefix (state_of (perform c s)) = eventsPrefix s \<and>
   autoPrefix (state_of (perform c s)) = autoPrefix s"
  by (cases c) (simp_all add: on_frame off_frame one_frame once_frame onAll_def offAll_def emit_frame)

lemma perform_namesAgree: "namesAgree (state_of (perform c s)) = namesAgree s"
  by (simp add: namesAgree_def perform_frame)

lemma inv_off_unmarked:
  assumes "onceWithinHandlers s k'"
    and "\<not> set_has (onceEntries s (getEventName s type (autoPrefix s))) cb"
  shows "onceWithinHandlers (state_of (off type cb s)) k'"
proof (cases "getEvents s (getEventName s type (autoPrefix s))")
  case (Value v)
  show ?thesis
  proof (cases v)
    case (SetV S)
    with Value have S: "getEvents s (getEventName s type (autoPrefix s)) = Value (SetV S)"
      by simp
    with assms show ?thesis
      by (auto simp: off_unfold onceWithinHandlers_def entries_setEvents[OF S] set_values_delete
          set_has_iff)
  next
    case Builtin
    with Value assms(1) show ?thesis by (simp add: off_unfold)
  qed
qed (use assms(1) in \<open>simp_all add: off_unfold\<close>)

lemma inv_one_sole_marker:
  assumes "onceWithinHandlers s k'"
    and "list_all (\<lambda>h. h = cb) (set_values (onceEntries s (getEventName s type (autoPrefix s))))"
  shows "onceWithinHandlers (state_of (one type cb s)) k'"
  using assms
  by (auto simp: one_def Let_def onceWithinHandlers_def entries_setEvents_any list_all_iff)

lemma inv_perform:
  assumes "keepsMarkers s c" "\<forall>k. onceWithinHandlers s k"
  shows "onceWithinHandlers (state_of (perform c s)) k'"
  using assms
  by (cases c)
    (simp_all add: inv_on inv_once inv_onAll inv_offAll inv_emit inv_off_unmarked
      inv_one_sole_marker)

lemma inv_run:
  "keepsMarkersAlong cs s \<Longrightarrow> \<forall>k. onceWithinHandlers s k \<Longrightarrow>
   onceWithinHandlers (run cs s) k'"
proof (induction cs arbitrary: s)
  case Nil
  then show ?case by simp
next
  case (Cons c cs)
  have "\<forall>k. onceWithinHandlers (state_of (perform c s)) k"
    using Cons.prems by (auto intro: inv_perform)
  moreover have "keepsMarkersAlong cs (state_of (perform c s))"
    using Cons.prems(1) by simp
  ultimately show ?case
    using Cons.IH by simp
qed

lemma inv_new: "onceWithinHandlers (EventEmitter pfx auto) k"
  by (simp add: onceWithinHandlers_def onceEntries_def getOnce_def getProp_def EventEmitter_def
      split: option.splits)

section \<open>When emit returns\<close>

lemma getEventName_setEvents [simp]: "getEventName (setEvents s k S) type b = getEventName s type b"
  by (simp add: getEventName_def)

lemma getEventName_setOnce [simp]: "getEventName (setOnce s k C) type b = getEventName s type b"
  by (simp add: getEventName_def)

lemma off_returned_iff:
  "returned (off type cb s) \<longleftrightarrow>
     (case getEvents s (getEventName s type (autoPrefix s)) of
        Undefined \<Rightarrow> True | Value (SetV S) \<Rightarrow> True | _ \<Rightarrow> False)"
  by (simp add: off_unfold split: lookup.splits jsval.splits)

lemma off_returned_any: "returned (off type h s) \<Longrightarrow> returned (off type cb s)"
  by (simp add: off_returned_iff)

lemma off_returned_agree:
  "namesAgree s \<Longrightarrow> getEvents s (getEventName s type True) = Value (SetV S) \<Longrightarrow>
   returned (off type h s)"
  by (simp add: off_returned_iff namesAgree_getEventName)

lemma emit_callback_returns_off:
  assumes "returned (off type h s)"
  shows "returned (emit_callback type type' cb s)"
proof (cases "off type cb s")
  case (Returned s1)
  then have "getOnce s1 type' = getOnce s type'"
    using off_frame(4)[of type cb s] by (simp add: getOnce_def)
  with Returned show ?thesis
    by (simp add: emit_callback_def split: lookup.splits jsval.splits)
next
  case (Thrown e s1)
  with off_returned_any[OF assms, of cb] show ?thesis by simp
qed

lemma off_returned_kept:
  assumes "returned (off type h s)"
  shows "returned (off type h (state_of (emit_callback type type' cb s)))"
proof (cases "emit_callback type type' cb s")
  case (Returned s1)
  then show ?thesis
  proof (cases rule: emit_callback_cases)
    case kept
    with assms Returned show ?thesis by simp
  next
    case (removed C s2 C2)
    have n: "getEventName s2 type (autoPrefix s2) = getEventName s type (autoPrefix s)"
      using off_frame(1,2)[of type cb s] removed(3) by (simp add: getEventName_def)
    from removed(3) have "returned (off type h s2)"
    proof (cases rule: off_cases)
      case absent
      with assms show ?thesis by simp
    next
      case (present S)
      then show ?thesis
        by (simp add: off_returned_iff getEvents_setEvents)
    qed
    then have "returned (off type h (setOnce s2 type' (set_delete C2 cb)))"
      by (simp add: off_returned_iff)
    with Returned removed(5) show ?thesis by simp
  qed
next
  case (Thrown e s1)
  with emit_callback_returns_off[OF assms, of type' cb] show ?thesis by simp
qed

lemma forEach_returns_off:
  "returned (off type h s) \<Longrightarrow> returned (snd (forEach_events type type' arg i s))"
proof (induction i s rule: forEach_induct[where type = type and type' = type'])
  case (finished i s)
  then show ?case by (simp add: forEach_done)
next
  case (skip i s S)
  then show ?case by (simp add: forEach_skip)
next
  case (throws i s S cb e s1)
  with emit_callback_returns_off[of type h s type' cb] show ?case by simp
next
  case (continue i s S cb s1)
  have "returned (off type h s1)"
    using off_returned_kept[OF continue.prems, of type' cb] continue(4) by simp
  from continue.IH[OF this] continue(1-4) show ?case
    by (simp add: forEach_next)
qed

lemma emit_returns_off:
  assumes "returned (off type h s)" "getEvents s (getEventName s type True) = Value (SetV S)"
  shows "returned (snd (emit type arg s))"
  using assms forEach_returns_off[of type h s "getEventName s type True" arg 0]
  by (simp add: emit_unfold)

section \<open>off of a callback that is not registered\<close>

lemma setEvents_same:
  assumes "getEvents s k = Value (SetV S)"
  shows "setEvents s k S = s"
proof -
  from assms have "getProp (eventsProto s) (events s) k = Value (SetV S)"
    by (simp add: getEvents_def)
  then show ?thesis
  proof (cases rule: getProp_Set_cases)
    case proto
    then show ?thesis by (simp add: setEvents_def)
  next
    case own
    then show ?thesis by (simp add: setEvents_def fun_upd_idem)
  qed
qed

lemma set_delete_absent: "\<not> set_has S cb \<Longrightarrow> set_delete S cb = S"
  by (auto simp: set_delete_def set_has_def intro: map_idI)

lemma off_never_registered:
  assumes "\<not> set_has (entries s (getEventName s type (autoPrefix s))) h"
    and "returned (off type h s)"
  shows "off type h s = Returned s"
proof (cases "getEvents s (getEventName s type (autoPrefix s))")
  case Undefined
  then show ?thesis by (simp add: off_unfold)
next
  case (Value v)
  show ?thesis
  proof (cases v)
    case (SetV S)
    with Value assms(1) show ?thesis
      by (simp add: off_unfold set_delete_absent setEvents_same)
  next
    case Builtin
    with Value assms(2) show ?thesis by (simp add: off_unfold)
  qed
next
  case GetterThrows
  with assms(2) show ?thesis by (simp add: off_unfold)
qed

section \<open>What emit removes when the names agree\<close>

lemma emit_callback_agree_entries:
  assumes "namesAgree s" "getEvents s (getEventName s type True) = Value (SetV S)"
  shows "entries (state_of (emit_callback type (getEventName s type True) cb s))
           (getEventName s type True) =
         (if set_has (onceEntries s (getEventName s type True)) cb then set_delete S cb else S)"
    and "onceEntries (state_of (emit_callback type (getEventName s type True) cb s))
           (getEventName s type True) =
         (if set_has (onceEntries s (getEventName s type True)) cb
          then set_delete (onceEntries s (getEventName s type True)) cb
          else onceEntries s (getEventName s type True))"
proof -
  let ?k = "getEventName s type True"
  let ?s1 = "state_of (emit_callback type ?k cb s)"
  note S = assms(2)
  have "entries ?s1 ?k = (if set_has (onceEntries s ?k) cb then set_delete S cb else S) \<and>
        onceEntries ?s1 ?k =
         (if set_has (onceEntries s ?k) cb then set_delete (onceEntries s ?k) cb
          else onceEntries s ?k)"
  proof (cases "\<exists>C. getOnce s ?k = Value (SetV C) \<and> set_has C cb")
    case False
    then have "?s1 = s" "\<not> set_has (onceEntries s ?k) cb"
      using assms(1)
      by (auto simp: emit_callback_agree onceEntries_def set_has_def
          split: lookup.splits jsval.splits)
    with S show ?thesis by simp
  next
    case True
    then obtain C where C: "getOnce s ?k = Value (SetV C)" "set_has C cb" by blast
    have C': "getOnce (setEvents s ?k (set_delete S cb)) ?k = Value (SetV C)"
      using C by simp
    from C S show ?thesis
      by (simp add: emit_callback_agree[OF assms(1)] onceEntries_setOnce[OF C']
          entries_setEvents[OF S])
  qed
  then show "entries ?s1 ?k = (if set_has (onceEntries s ?k) cb then set_delete S cb else S)"
    and "onceEntries ?s1 ?k =
         (if set_has (onceEntries s ?k) cb then set_delete (onceEntries s ?k) cb
          else onceEntries s ?k)"
    by simp_all
qed

lemma set_values_drop_set:
  "i < length S \<Longrightarrow> S ! i = Some cb \<Longrightarrow>
   set (set_values (drop i S)) = insert cb (set (set_values (drop (Suc i) S)))"
  by (simp add: set_values_drop)

lemma forEach_agree_state:
  "namesAgree s \<Longrightarrow> type' = getEventName s type True \<Longrightarrow>
   distinct (set_values (entries s type')) \<Longrightarrow>
   distinct (set_values (entries (state_of (snd (forEach_events type type' arg i s))) type')) \<and>
   set (set_values (entries (state_of (snd (forEach_events type type' arg i s))) type')) =
     set (set_values (entries s type')) -
       (set (set_values (drop i (entries s type'))) \<inter> set (set_values (onceEntries s type'))) \<and>
   set (set_values (onceEntries (state_of (snd (forEach_events type type' arg i s))) type')) =
     set (set_values (onceEntries s type')) - set (set_values (drop i (entries s type')))"
proof (induction i s rule: forEach_induct[where type = type and type' = type'])
  case (finished i s)
  then show ?case by (simp add: forEach_done)
next
  case (skip i s S)
  then show ?case by (simp add: forEach_skip set_values_drop_None)
next
  case (throws i s S cb e s1)
  with emit_callback_returns[of s type S cb] show ?case by simp
next
  case (continue i s S cb s1)
  let ?C = "onceEntries s type'"
  have k: "type' = getEventName s type True" by (rule continue.prems(2))
  have S: "getEvents s (getEventName s type True) = Value (SetV S)"
    using continue(1) k by simp
  have s1: "s1 = state_of (emit_callback type (getEventName s type True) cb s)"
    using continue(4) k by simp
  have fr: "eventsPrefix s1 = eventsPrefix s" "autoPrefix s1 = autoPrefix s"
    using emit_callback_frame(1,2)[of type type' cb s] continue(4) by simp_all
  then have a1: "namesAgree s1" and k1: "type' = getEventName s1 type True"
    using continue.prems(1,2) by (simp_all add: namesAgree_def getEventName_def)
  have e1: "entries s1 type' = (if set_has ?C cb then set_delete S cb else S)"
    and c1: "onceEntries s1 type' = (if set_has ?C cb then set_delete ?C cb else ?C)"
    unfolding s1 k
    using emit_callback_agree_entries[OF continue.prems(1) S, of cb] by simp_all
  have d: "distinct (set_values S)"
    using continue.prems(3) continue(1) by simp
  have d1: "distinct (set_values (entries s1 type'))"
    using d by (simp add: e1 distinct_set_delete)
  have dr: "drop (Suc i) (entries s1 type') = drop (Suc i) S"
    using d continue(2,3) by (simp add: e1 drop_set_delete)
  have here: "set (set_values (drop i S)) = insert cb (set (set_values (drop (Suc i) S)))"
    using continue(2,3) by (rule set_values_drop_set)
  have cbS: "cb \<in> set (set_values S)"
    using continue(2,3) by (metis nth_mem set_has_def set_has_iff)
  have fin: "state_of (snd (forEach_events type type' arg i s)) =
      state_of (snd (forEach_events type type' arg (Suc i) s1))"
    using continue(1-4) by (simp add: forEach_next)
  from continue.IH[OF a1 k1 d1] show ?case
    unfolding fin dr
    using continue(1) here cbS
    by (auto simp: e1 c1 set_values_delete set_has_iff split: if_splits)
qed

lemma emit_keeps_Set:
  assumes "getEvents s (getEventName s type True) = Value (SetV S)"
  shows "\<exists>S'. getEvents (state_of (snd (emit type arg s))) (getEventName s type True) =
           Value (SetV S')"
  using assms
  by (intro emit_preserves[where P = "\<lambda>t. \<exists>S'. getEvents t (getEventName s type True) = Value (SetV S')"])
    (use emit_callback_entries in blast)+

lemma named_call_member:
  "Invoke g [JArg arg] \<in> set (universalCalls s type arg @ namedCalls cbs arg) \<longleftrightarrow> g \<in> set cbs"
  by (auto simp: universalCalls_def namedCalls_def)

section \<open>on twice\<close>

lemma on_twice:
  "on type h (state_of (on type h s)) = on type h s"
proof (cases "on type h s")
  case (Returned s1)
  then show ?thesis using on_idem[OF Returned] by simp
next
  case (Thrown e s1)
  define k where "k = getEventName s type (autoPrefix s)"
  have k1: "getEventName s1 type (autoPrefix s1) = k"
    using on_frame(1,2)[of type h s] Thrown by (simp add: getEventName_def k_def)
  show ?thesis
  proof (cases "getEvents s k")
    case Undefined
    with Thrown show ?thesis by (simp add: on_unfold k_def)
  next
    case GetterThrows
    with Thrown show ?thesis by (simp add: on_unfold k_def)
  next
    case (Value v)
    show ?thesis
    proof (cases v)
      case (SetV S)
      with Value Thrown show ?thesis by (simp add: on_unfold k_def)
    next
      case Builtin
      with Value have B: "getEvents s k = Value Builtin" by simp
      have g1: "getEvents s1 k = Value Builtin"
        using getEvents_on[of type h s k] Thrown B by (simp add: k_def)
      have e: "e = TypeError" by (cases e) simp
      show ?thesis
      proof (cases "k = ''__proto__''")
        case True
        with B Thrown have "s1 = s" by (simp add: on_unfold k_def[symmetric])
        with Thrown show ?thesis by simp
      next
        case False
        with B Thrown have s1: "s1 = s\<lparr>events := (events s)(k \<mapsto> Builtin)\<rparr>"
          by (simp add: on_unfold k_def[symmetric])
        then have "s1\<lparr>events := (events s1)(k \<mapsto> Builtin)\<rparr> = s1" by simp
        with g1 False Thrown e show ?thesis
          by (simp add: on_unfold[of type h s1] k1)
      qed
    qed
  qed
qed

section \<open>Every Set holds a callback once\<close>

lemma distinctSets_setEvents:
  "distinctSets s \<Longrightarrow> distinct (set_values S) \<Longrightarrow> distinctSets (setEvents s k S)"
  by (simp add: distinctSets_def entries_setEvents_any)

lemma onceEntries_setOnce_any:
  "onceEntries (setOnce s k C) k' = (if k' = k \<and> k \<noteq> ''__proto__'' then C else onceEntries s k')"
  by (simp add: onceEntries_def getOnce_setOnce)

lemma distinctSets_setOnce:
  "distinctSets s \<Longrightarrow> distinct (set_values C) \<Longrightarrow> distinctSets (setOnce s k C)"
  by (simp add: distinctSets_def onceEntries_setOnce_any)

lemma distinctSets_entries: "distinctSets s \<Longrightarrow> getEvents s k = Value (SetV S) \<Longrightarrow> distinct (set_values S)"
  by (auto simp: distinctSets_def entries_def dest: spec[where x = k])

lemma distinctSets_onceEntries: "distinctSets s \<Longrightarrow> getOnce s k = Value (SetV C) \<Longrightarrow> distinct (set_values C)"
  by (auto simp: distinctSets_def onceEntries_def dest!: spec[where x = k])

lemma distinct_off:
  assumes "distinctSets s"
  shows "distinctSets (state_of (off type cb s))"
proof (cases "getEvents s (getEventName s type (autoPrefix s))")
  case (Value v)
  show ?thesis
  proof (cases v)
    case (SetV S)
    with Value assms show ?thesis
      by (simp add: off_unfold distinctSets_setEvents distinct_set_delete distinctSets_entries)
  next
    case Builtin
    with Value assms show ?thesis by (simp add: off_unfold)
  qed
qed (use assms in \<open>simp_all add: off_unfold\<close>)

lemma distinct_one:
  "distinctSets s \<Longrightarrow> distinctSets (state_of (one type cb s))"
  by (simp add: one_def Let_def distinctSets_setEvents)

lemma distinct_on:
  assumes "distinctSets s"
  shows "distinctSets (state_of (on type cb s))"
proof -
  have "distinct (set_values (entries (state_of (on type cb s)) k))" for k
    using assms distinctSets_entries[OF assms]
    by (auto simp: entries_def getEvents_on distinctSets_def distinct_set_add
        split: lookup.splits jsval.splits if_splits)
  with assms show ?thesis
    by (simp add: distinctSets_def on_frame)
qed

lemma distinct_mark:
  assumes "distinctSets s"
  shows "distinctSets (state_of (mark k cb s))"
proof -
  have "distinct (set_values (onceEntries (state_of (mark k cb s)) k'))" for k'
    using assms distinctSets_onceEntries[OF assms]
    by (auto simp: onceEntries_def getOnce_mark distinctSets_def distinct_set_add
        split: lookup.splits jsval.splits if_splits)
  with assms show ?thesis
    by (simp add: distinctSets_def mark_frame)
qed

lemma distinct_once:
  "distinctSets s \<Longrightarrow> distinctSets (state_of (once type cb s))"
  using distinct_on[of s type cb] distinct_mark
  by (auto simp: once_on split: completion.splits)

lemma distinct_onAll: "distinctSets s \<Longrightarrow> distinctSets (state_of (onAll cb s))"
  by (simp add: distinctSets_def onAll_def distinct_set_add entries_def onceEntries_def
      getEvents_def getOnce_def)

lemma distinct_offAll: "distinctSets s \<Longrightarrow> distinctSets (state_of (offAll cb s))"
  by (simp add: distinctSets_def offAll_def distinct_set_delete entries_def onceEntries_def
      getEvents_def getOnce_def)

lemma distinct_emit_callback:
  assumes "distinctSets s"
  shows "distinctSets (state_of (emit_callback type type' cb s))"
proof (cases "emit_callback type type' cb s")
  case (Returned s1)
  then show ?thesis
  proof (cases rule: emit_callback_cases)
    case kept
    with assms Returned show ?thesis by simp
  next
    case (removed C s2 C2)
    have "distinctSets s2"
      using distinct_off[OF assms, of type cb] removed(3) by simp
    with removed(4,5) Returned show ?thesis
      by (simp add: distinctSets_setOnce distinct_set_delete distinctSets_onceEntries)
  qed
next
  case (Thrown e s1)
  then have "s1 = s \<or> s1 = state_of (off type cb s)"
    by (auto simp: emit_callback_def split: lookup.splits jsval.splits if_splits completion.splits)
  with Thrown assms distinct_off[OF assms, of type cb] show ?thesis by auto
qed

lemma distinct_emit: "distinctSets s \<Longrightarrow> distinctSets (state_of (snd (emit type arg s)))"
  by (rule emit_preserves[where P = distinctSets]) (simp_all add: distinct_emit_callback)

lemma distinct_perform: "distinctSets s \<Longrightarrow> distinctSets (state_of (perform c s))"
  by (cases c)
    (simp_all add: distinct_on distinct_off distinct_one distinct_once distinct_onAll
      distinct_offAll distinct_emit)

lemma distinct_run: "distinctSets s \<Longrightarrow> distinctSets (run cs s)"
  by (induction cs arbitrary: s) (simp_all add: distinct_perform)

lemma distinct_new: "distinctSets (EventEmitter pfx auto)"
  by (simp add: distinctSets_def entries_def onceEntries_def getEvents_def getOnce_def
      getProp_def EventEmitter_def split: option.splits)

lemma distinct_reachable: "distinctSets (run cs (EventEmitter pfx auto))"
  by (simp add: distinct_run distinct_new)

section \<open>Counting invocations\<close>

lemma filter_callee_map:
  "distinct cbs \<Longrightarrow> h \<in> set cbs \<Longrightarrow>
   filter (\<lambda>c. callee c = h) (map (\<lambda>cb. Invoke cb args) cbs) = [Invoke h args]"
proof (induction cbs)
  case Nil
  then show ?case by simp
next
  case (Cons a cbs)
  show ?case
  proof (cases "a = h")
    case True
    with Cons.prems have "h \<notin> set cbs" by simp
    then have "filter (\<lambda>c. callee c = h) (map (\<lambda>cb. Invoke cb args) cbs) = []"
      by (induction cbs) auto
    with True show ?thesis by simp
  next
    case False
    with Cons show ?thesis by simp
  qed
qed

lemma set_has_entries_Set:
  assumes "set_has (entries s k) h"
  obtains S where "getEvents s k = Value (SetV S)"
proof (cases "getEvents s k")
  case (Value v)
  then show ?thesis using assms that by (cases v) (simp_all add: entries_def set_has_def)
qed (use assms in \<open>simp_all add: entries_def set_has_def\<close>)

lemma filter_named_eq:
  "distinct cbs \<Longrightarrow> h \<in> set cbs \<Longrightarrow>
   filter (\<lambda>c. c = Invoke h [JArg arg]) (namedCalls cbs arg) = [Invoke h [JArg arg]]"
proof (induction cbs)
  case Nil
  then show ?case by simp
next
  case (Cons a cbs)
  show ?case
  proof (cases "a = h")
    case True
    with Cons.prems have "h \<notin> set cbs" by simp
    then have "filter (\<lambda>c. c = Invoke h [JArg arg]) (namedCalls cbs arg) = []"
      by (induction cbs) (auto simp: namedCalls_def)
    with True show ?thesis by (simp add: namedCalls_def)
  next
    case False
    with Cons show ?thesis by (simp add: namedCalls_def)
  qed
qed

lemma filter_universal_named:
  "filter (\<lambda>c. c = Invoke h [JArg arg]) (universalCalls s type arg) = []"
  by (simp add: universalCalls_def filter_empty_conv)

section \<open>Prefixed names\<close>

lemma prefixed_not_builtin:
  "pfx @ '':'' @ t \<noteq> ''__proto__''" "pfx @ '':'' @ t \<notin> set objectProtoKeys"
proof -
  have c: "CHR '':'' \<in> set (pfx @ '':'' @ t)" by simp
  have "\<forall>k \<in> set (''__proto__'' # objectProtoKeys). CHR '':'' \<notin> set k"
    by (simp add: objectProtoKeys_def)
  with c show "pfx @ '':'' @ t \<noteq> ''__proto__''" "pfx @ '':'' @ t \<notin> set objectProtoKeys"
    by (metis list.set_intros(1), metis list.set_intros(2))
qed

lemma prefixed_not_raw: "pfx @ '':'' @ t \<noteq> t"
  using arg_cong[of "pfx @ '':'' @ t" t length] by auto

section \<open>Evaluation on concrete emitters\<close>

lemmas eval_defs =
  EventEmitter_def getEventName_def ensureSet_def getEvents_def getOnce_def getProp_def
  setEvents_def setOnce_def objectProtoKeys_def setProtoKeys_def
  set_add_def set_has_def set_delete_def set_values_def
  on_def off_def one_def once_def onAll_def offAll_def
  emit_def emit_callback_def forEach_events.simps Let_def

section \<open>Prefix resolution\<close>


section \<open>The universal pass\<close>

text \<open>
  Claim C4. For every \<open>emit(type, arg)\<close> on every emitter: the invocations start with one
  call \<open>cb(type, arg)\<close> for every callback \<open>cb\<close> that \<open>allEvents\<close> holds, in insertion order,
  where \<open>type\<close> is the name as \<open>emit\<close> received it (with a prefix configured, the resolved
  name is another string); every invocation after these is a call \<open>cb(arg)\<close> of the
  second pass; and when \<open>events\<close> has nothing under the resolved name, the universal calls
  are all the calls and \<open>emit\<close> returns.
\<close>

theorem universal_before_named:
  "\<exists>rest.
     fst (emit type arg s) =
       map (\<lambda>cb. Invoke cb [JStr type, JArg arg]) (set_values (allEvents s)) @ rest \<and>
     (\<forall>c \<in> set rest. \<exists>cb. c = Invoke cb [JArg arg]) \<and>
     (getEvents s (getEventName s type True) = Undefined \<longrightarrow>
        rest = [] \<and> snd (emit type arg s) = Returned s) \<and>
     (\<forall>cb. set_has (allEvents s) cb \<longleftrightarrow> cb \<in> set (set_values (allEvents s))) \<and>
     (eventsPrefix s \<noteq> [] \<longrightarrow> getEventName s type True \<noteq> type)"
proof -
  let ?u = "map (\<lambda>cb. Invoke cb [JStr type, JArg arg]) (set_values (allEvents s))"
  let ?k = "getEventName s type True"
  have u: "universalCalls s type arg = ?u"
    by (simp add: universalCalls_def)
  have name: "eventsPrefix s \<noteq> [] \<longrightarrow> ?k \<noteq> type"
    by (auto simp: getEventName_def dest: arg_cong[where f = length])
  have mem: "\<forall>cb. set_has (allEvents s) cb \<longleftrightarrow> cb \<in> set (set_values (allEvents s))"
    by (simp add: set_has_iff)
  show ?thesis
  proof (cases "\<exists>S. getEvents s ?k = Value (SetV S)")
    case True
    then obtain S where S: "getEvents s ?k = Value (SetV S)" ..
    let ?rest = "fst (forEach_events type ?k arg 0 s)"
    have "fst (emit type arg s) = ?u @ ?rest"
      using S by (simp add: emit_unfold u)
    moreover have "\<forall>c \<in> set ?rest. \<exists>cb. c = Invoke cb [JArg arg]"
      by (rule forEach_named)
    ultimately show ?thesis
      using S name mem by (intro exI[of _ ?rest]) simp
  next
    case False
    then have "fst (emit type arg s) = ?u @ []"
      by (simp add: emit_unfold u split: lookup.splits jsval.splits)
    moreover have "getEvents s ?k = Undefined \<longrightarrow> snd (emit type arg s) = Returned s"
      by (simp add: emit_unfold)
    ultimately show ?thesis
      using name mem by (intro exI[of _ "[]"]) simp
  qed
qed

theorem universal_before_named_witness:
  "fst (emit ''x'' (7::int) (state_of (on ''x'' 1 (state_of (onAll 9 (EventEmitter ''ns'' True)))))) =
     [Invoke 9 [JStr ''x'', JArg 7], Invoke 1 [JArg 7]] \<and>
   getEvents (state_of (onAll 9 (EventEmitter ''ns'' True)))
     (getEventName (state_of (onAll 9 (EventEmitter ''ns'' True))) ''y'' True) = Undefined \<and>
   emit ''y'' (7::int) (state_of (onAll 9 (EventEmitter ''ns'' True))) =
     ([Invoke 9 [JStr ''y'', JArg 7]], Returned (state_of (onAll 9 (EventEmitter ''ns'' True))))"
  using universal_before_named[where type = "''x''" and arg = "7::int"
      and s = "state_of (on ''x'' 1 (state_of (onAll 9 (EventEmitter ''ns'' True))))"]
    universal_before_named[where type = "''y''" and arg = "7::int"
      and s = "state_of (onAll 9 (EventEmitter ''ns'' True))"]
  by (simp add: eval_defs)

section \<open>A callback registered twice over\<close>

text \<open>The statement for emitters whose \<open>Set\<close>s hold every callback once.\<close>

lemma universal_and_named_twice_distinct:
  assumes "set_has (allEvents s) h"
    and "set_has (entries s (getEventName s type True)) h"
    and "distinct (set_values (allEvents s))"
    and "distinct (set_values (entries s (getEventName s type True)))"
    and "namesAgree s \<or> returned (off type h s)"
  shows "returned (snd (emit type arg s)) \<and>
         filter (\<lambda>c. callee c = h) (fst (emit type arg s)) =
           [Invoke h [JStr type, JArg arg], Invoke h [JArg arg]]"
proof -
  let ?k = "getEventName s type True"
  from assms(2) obtain S where S: "getEvents s ?k = Value (SetV S)"
    by (rule set_has_entries_Set)
  have "returned (off type h s)"
    using assms(5) off_returned_agree[OF _ S] by blast
  then have r: "returned (snd (emit type arg s))"
    using S by (rule emit_returns_off)
  have "fst (emit type arg s) =
      universalCalls s type arg @ namedCalls (set_values (entries s ?k)) arg"
    using assms(4) r by (rule emit_calls)
  moreover have "filter (\<lambda>c. callee c = h) (universalCalls s type arg) =
      [Invoke h [JStr type, JArg arg]]"
    unfolding universalCalls_def using assms(1,3)
    by (intro filter_callee_map) (simp_all add: set_has_iff)
  moreover have "filter (\<lambda>c. callee c = h) (namedCalls (set_values (entries s ?k)) arg) =
      [Invoke h [JArg arg]]"
    unfolding namedCalls_def using assms(2,4)
    by (intro filter_callee_map) (simp_all add: set_has_iff)
  ultimately show ?thesis using r by simp
qed

text \<open>
  In every state that calls of the methods produce from a new emitter: when a callback
  \<open>h\<close> is both in \<open>allEvents\<close> and in the \<open>Set\<close> that \<open>events\<close> holds under the name
  \<open>emit(type, arg)\<close> resolves to, \<open>emit\<close> returns and has invoked \<open>h\<close> exactly twice: first as
  \<open>h(type, arg)\<close>, then as \<open>h(arg)\<close>. This is proved for every emitter that registers under
  the names it emits, and for every other emitter on which \<open>off(type, h)\<close> returns, which
  is the call \<open>emit\<close> makes for a single-shot callback.
\<close>

lemma universal_and_named_twice:
  assumes "s = run cs (EventEmitter pfx auto)"
    and "set_has (allEvents s) h"
    and "set_has (entries s (getEventName s type True)) h"
    and "namesAgree s \<or> returned (off type h s)"
  shows "returned (snd (emit type arg s)) \<and>
         filter (\<lambda>c. callee c = h) (fst (emit type arg s)) =
           [Invoke h [JStr type, JArg arg], Invoke h [JArg arg]]"
proof -
  have "distinctSets s"
    unfolding assms(1) by (rule distinct_reachable)
  then have "distinct (set_values (allEvents s))"
    and "distinct (set_values (entries s (getEventName s type True)))"
    by (simp_all add: distinctSets_def)
  with assms(2,3) show ?thesis
    using assms(4) by (intro universal_and_named_twice_distinct)
qed

lemma universal_and_named_twice_example:
  "set_has (allEvents (run [OnAll 3, On ''x'' 5, On ''x'' 3 :: int call] (EventEmitter ''ns'' True))) 3 \<and>
   set_has (entries (run [OnAll 3, On ''x'' 5, On ''x'' 3 :: int call] (EventEmitter ''ns'' True))
      ''ns:x'') 3 \<and>
   namesAgree (run [OnAll 3, On ''x'' 5, On ''x'' 3 :: int call] (EventEmitter ''ns'' True)) \<and>
   returned (snd (emit ''x'' (7::int)
      (run [OnAll 3, On ''x'' 5, On ''x'' 3 :: int call] (EventEmitter ''ns'' True)))) \<and>
   fst (emit ''x'' (7::int)
      (run [OnAll 3, On ''x'' 5, On ''x'' 3 :: int call] (EventEmitter ''ns'' True))) =
     [Invoke 3 [JStr ''x'', JArg 7], Invoke 5 [JArg 7], Invoke 3 [JArg 7]] \<and>
   filter (\<lambda>c. callee c = 3)
     (fst (emit ''x'' (7::int)
        (run [OnAll 3, On ''x'' 5, On ''x'' 3 :: int call] (EventEmitter ''ns'' True)))) =
     [Invoke 3 [JStr ''x'', JArg 7], Invoke 3 [JArg 7]]"
  using universal_and_named_twice[OF refl, where h = 3 and type = "''x''" and arg = "7::int"
      and cs = "[OnAll 3, On ''x'' 5, On ''x'' 3 :: int call]" and pfx = "''ns''" and auto = True]
  by (simp add: eval_defs entries_def namesAgree_def)

text \<open>
  Claim C9, at an emitter where it fails. With prefix \<open>ns\<close> and \<open>autoPrefix = false\<close>, after
  \<open>once("ns:toString", 1)\<close>, \<open>on("ns:toString", 2)\<close> and \<open>onAll(2)\<close>, callback 2 is a universal
  callback and a callback of \<open>ns:toString\<close>, the name \<open>emit("toString", arg)\<close> resolves to.
  The emit invokes callback 2 with \<open>("toString", arg)\<close>, then callback 1 with \<open>(arg)\<close>, and
  calls \<open>this.off("toString", 1)\<close> for the single-shot callback 1. \<open>off\<close> resolves the name
  to \<open>toString\<close>, reads the function that \<open>events\<close> inherits under it and throws on
  \<open>.delete\<close>: the loop ends there, and callback 2 is not invoked as a callback of the name.
\<close>

theorem universal_and_named_once_when_off_throws:
  "(let s1 = state_of (once ''ns:toString'' 1 (EventEmitter ''ns'' False));
        s2 = state_of (on ''ns:toString'' 2 s1);
        s3 = state_of (onAll 2 s2)
    in returned (once ''ns:toString'' 1 (EventEmitter ''ns'' False)) \<and>
       returned (on ''ns:toString'' 2 s1) \<and>
       set_values (allEvents s3) = [2] \<and>
       getEventName s3 ''toString'' True = ''ns:toString'' \<and>
       set_values (entries s3 ''ns:toString'') = [1, 2] \<and>
       emit ''toString'' arg s3 =
         ([Invoke 2 [JStr ''toString'', JArg arg], Invoke 1 [JArg arg]], Thrown TypeError s3))"
  by (simp add: eval_defs entries_def)

section \<open>emit creates no registration state\<close>

text \<open>
  Claim C10. When \<open>events\<close> has nothing under the resolved name, \<open>emit\<close> makes the universal
  calls and returns the emitter as it was: no empty \<open>Set\<close> is created, and \<open>events\<close>,
  \<open>onceCallbacks\<close> and \<open>allEvents\<close> are unchanged. The state is also unchanged whenever
  the resolved name holds no \<open>Set\<close>. (Callbacks do not touch the emitter in this model.)
\<close>

theorem emit_creates_nothing:
  "(getEvents s (getEventName s type True) = Undefined \<longrightarrow>
      emit type arg s =
        (map (\<lambda>cb. Invoke cb [JStr type, JArg arg]) (set_values (allEvents s)), Returned s)) \<and>
   ((\<forall>S. getEvents s (getEventName s type True) \<noteq> Value (SetV S)) \<longrightarrow>
      state_of (snd (emit type arg s)) = s)"
  by (auto simp: emit_unfold universalCalls_def split: lookup.splits jsval.splits)

theorem emit_creates_nothing_witness:
  "getEvents (EventEmitter [] False) (getEventName (EventEmitter [] False) ''never'' True) = Undefined \<and>
   (\<forall>S. getEvents (EventEmitter [] False) (getEventName (EventEmitter [] False) ''never'' True)
      \<noteq> Value (SetV S)) \<and>
   emit ''never'' (0::int) (EventEmitter [] False) = ([], Returned (EventEmitter [] False)) \<and>
   state_of (snd (emit ''never'' (0::int) (EventEmitter [] False))) = EventEmitter [] False"
  using emit_creates_nothing[where s = "EventEmitter [] False" and type = "''never''" and arg = "0::int"]
  by (simp add: eval_defs)

section \<open>Registering the same callback twice\<close>

text \<open>
  A second \<open>on(type, h)\<close> completes as the first did and leaves the emitter as the first
  left it, for every name, callback and emitter (\<open>on_twice\<close>). When \<open>on(type, h)\<close> returns
  on an emitter that registers under the names it emits, a following \<open>emit(type, arg)\<close>
  returns and makes the call \<open>h(arg)\<close> exactly once. (The entries of the \<open>Set\<close> under the
  name are distinct before the registration, as in every \<open>Set\<close>.)
\<close>

lemma register_idempotent:
  assumes "on type h s = Returned s1"
  shows "on type h s1 = Returned s1 \<and>
     (namesAgree s \<and> distinct (set_values (entries s (getEventName s type True))) \<longrightarrow>
        returned (snd (emit type arg s1)) \<and>
        length (filter (\<lambda>c. c = Invoke h [JArg arg]) (fst (emit type arg s1))) = 1)"
proof -
  have idem: "on type h s1 = Returned s1"
    using assms by (rule on_idem)
  have "returned (snd (emit type arg s1)) \<and>
      length (filter (\<lambda>c. c = Invoke h [JArg arg]) (fst (emit type arg s1))) = 1"
    if agree: "namesAgree s" and d: "distinct (set_values (entries s (getEventName s type True)))"
  proof -
    let ?k = "getEventName s type True"
    have fr: "eventsPrefix s1 = eventsPrefix s" "autoPrefix s1 = autoPrefix s"
      using on_frame(1,2)[of type h s] assms by simp_all
    then have k1: "getEventName s1 type True = ?k" and agree1: "namesAgree s1"
      using agree by (simp_all add: getEventName_def namesAgree_def)
    have S1: "getEvents s1 ?k = Value (SetV (set_add (entries s ?k) h))"
      using on_Returned[OF assms] agree by (simp add: namesAgree_getEventName)
    then have S1': "getEvents s1 (getEventName s1 type True) = Value (SetV (set_add (entries s ?k) h))"
      by (simp add: k1)
    have r: "returned (snd (emit type arg s1))"
      using agree1 S1' by (rule emit_returns)
    have e1: "entries s1 (getEventName s1 type True) = set_add (entries s ?k) h"
      using S1' by simp
    have d1: "distinct (set_values (entries s1 (getEventName s1 type True)))"
      unfolding e1 using d by (rule distinct_set_add)
    have calls: "fst (emit type arg s1) =
        universalCalls s1 type arg @ namedCalls (set_values (set_add (entries s ?k) h)) arg"
      using emit_calls[OF d1 r] by (simp add: e1)
    have "h \<in> set (set_values (set_add (entries s ?k) h))"
      by (simp add: set_values_add)
    with d1 have "filter (\<lambda>c. c = Invoke h [JArg arg])
        (namedCalls (set_values (set_add (entries s ?k) h)) arg) = [Invoke h [JArg arg]]"
      unfolding e1 by (intro filter_named_eq)
    with calls r show ?thesis
      by (simp add: filter_universal_named)
  qed
  with idem show ?thesis by blast
qed

text \<open>
  Claim C6, at a name where it fails. On a new emitter without prefix, \<open>on("toString", h)\<close>
  finds the function that \<open>events\<close> inherits under \<open>toString\<close>, stores it as an own property
  and throws on \<open>.add\<close>; a second \<open>on("toString", h)\<close> does the same. No \<open>Set\<close> is under the
  name, and \<open>emit("toString", arg)\<close> throws without a call of \<open>h\<close>, where the claim says
  one call.
\<close>

theorem register_twice_builtin_name:
  "(let s1 = state_of (on ''toString'' h (EventEmitter [] False)) in
      on ''toString'' h (EventEmitter [] False) = Thrown TypeError s1 \<and>
      on ''toString'' h s1 = Thrown TypeError s1 \<and>
      entries s1 ''toString'' = [] \<and>
      emit ''toString'' arg s1 = ([], Thrown TypeError s1))"
  by (simp add: eval_defs entries_def)

section \<open>Exclusive registration\<close>

text \<open>
  Claim C5 as stated fails where the emitter registers under other names than it emits.
  With prefix \<open>ns\<close> and \<open>autoPrefix = false\<close>, \<open>on("x", 1)\<close> and \<open>one("x", 2)\<close> work on the
  name \<open>x\<close>, and \<open>emit("x", 0)\<close> looks under \<open>ns:x\<close>: on a new emitter it invokes nothing,
  and after an earlier \<open>on("ns:x", 1)\<close> it invokes callback 1 and not callback 2.
\<close>

theorem exclusive_unreached_under_explicit_prefix:
  "entries (state_of (one ''x'' 2 (state_of (on ''x'' 1 (EventEmitter ''ns'' False))))) ''x'' =
     [Some 2] \<and>
   emit ''x'' (0::int)
     (state_of (one ''x'' 2 (state_of (on ''x'' 1 (EventEmitter ''ns'' False))))) =
     ([], Returned (state_of (one ''x'' 2 (state_of (on ''x'' 1 (EventEmitter ''ns'' False)))))) \<and>
   fst (emit ''x'' (0::int)
     (state_of (one ''x'' 2 (state_of (on ''x'' 1
        (state_of (on ''ns:x'' 1 (EventEmitter ''ns'' False)))))))) = [Invoke 1 [JArg 0]]"
  by (simp add: eval_defs entries_def)

text \<open>
  Claim C5, amended. For distinct callbacks \<open>h1\<close> and \<open>h2\<close> and every emitter: when
  \<open>one(type, h2)\<close> returns after \<open>on(type, h1)\<close>, the \<open>Set\<close> under the resolved name is
  exactly \<open>{h2}\<close>; on an emitter without prefix or with \<open>autoPrefix\<close>, \<open>emit(type, arg)\<close>
  then returns after the universal calls and the single call \<open>h2(arg)\<close>, and makes no call
  \<open>h1(arg)\<close>. For the name \<open>x\<close>, \<open>one\<close> returns on every emitter, so that on every emitter
  without prefix or with \<open>autoPrefix\<close> the calls of \<open>emit("x", arg)\<close> after \<open>on("x", h1)\<close> and
  \<open>one("x", h2)\<close> are the universal calls and \<open>h2(arg)\<close>.
\<close>

theorem exclusive_replaces:
  assumes "h1 \<noteq> h2"
  shows
    "(one type h2 (state_of (on type h1 s)) = Returned s2 \<longrightarrow>
        entries s2 (getEventName s type (autoPrefix s)) = [Some h2] \<and>
        (namesAgree s \<longrightarrow>
           returned (snd (emit type arg s2)) \<and>
           fst (emit type arg s2) = universalCalls s type arg @ [Invoke h2 [JArg arg]] \<and>
           Invoke h1 [JArg arg] \<notin> set (fst (emit type arg s2)))) \<and>
     returned (one ''x'' h2 (state_of (on ''x'' h1 s))) \<and>
     (namesAgree s \<longrightarrow>
        returned (snd (emit ''x'' arg (state_of (one ''x'' h2 (state_of (on ''x'' h1 s)))))) \<and>
        fst (emit ''x'' arg (state_of (one ''x'' h2 (state_of (on ''x'' h1 s))))) =
          universalCalls s ''x'' arg @ [Invoke h2 [JArg arg]])"
proof -
  have general: "entries s2 (getEventName s type (autoPrefix s)) = [Some h2] \<and>
        (namesAgree s \<longrightarrow>
           returned (snd (emit type arg s2)) \<and>
           fst (emit type arg s2) = universalCalls s type arg @ [Invoke h2 [JArg arg]] \<and>
           Invoke h1 [JArg arg] \<notin> set (fst (emit type arg s2)))"
    if one: "one type h2 (state_of (on type h1 s)) = Returned s2" for s2 type
  proof -
    let ?s1 = "state_of (on type h1 s)"
    let ?k = "getEventName s type (autoPrefix s)"
    have fr1: "eventsPrefix ?s1 = eventsPrefix s" "autoPrefix ?s1 = autoPrefix s"
      "allEvents ?s1 = allEvents s"
      by (rule on_frame)+
    have fr2: "eventsPrefix s2 = eventsPrefix s" "autoPrefix s2 = autoPrefix s"
      "allEvents s2 = allEvents s"
      using one_frame(1,2,3)[of type h2 ?s1] one fr1 by simp_all
    have k1: "getEventName ?s1 type (autoPrefix ?s1) = ?k"
      using fr1 by (simp add: getEventName_def)
    have S2: "getEvents s2 ?k = Value (SetV [Some h2])"
      using one_Returned[OF one] by (simp add: k1)
    then have e: "entries s2 ?k = [Some h2]" by simp
    have "returned (snd (emit type arg s2)) \<and>
        fst (emit type arg s2) = universalCalls s type arg @ [Invoke h2 [JArg arg]] \<and>
        Invoke h1 [JArg arg] \<notin> set (fst (emit type arg s2))"
      if agree: "namesAgree s"
    proof -
      have agree2: "namesAgree s2"
        using agree fr2 by (simp add: namesAgree_def)
      have k2: "getEventName s2 type True = ?k"
        using agree fr2 by (auto simp: getEventName_def namesAgree_def)
      have S2': "getEvents s2 (getEventName s2 type True) = Value (SetV [Some h2])"
        using S2 by (simp add: k2)
      have r: "returned (snd (emit type arg s2))"
        using agree2 S2' by (rule emit_returns)
      have "fst (emit type arg s2) =
          universalCalls s2 type arg @ namedCalls (set_values (entries s2 (getEventName s2 type True))) arg"
        using S2' r by (intro emit_calls) simp_all
      then have c: "fst (emit type arg s2) = universalCalls s type arg @ [Invoke h2 [JArg arg]]"
        using S2' fr2 by (simp add: namedCalls_def universalCalls_def)
      have "Invoke h1 [JArg arg] \<notin> set (fst (emit type arg s2))"
        unfolding c using assms by (auto simp: universalCalls_def)
      with r c show ?thesis by blast
    qed
    with e show ?thesis by blast
  qed
  have x: "returned (one ''x'' h2 (state_of (on ''x'' h1 s)))"
    by (rule one_returns_x)
  then obtain sx where sx: "one ''x'' h2 (state_of (on ''x'' h1 s)) = Returned sx"
    by (cases "one ''x'' h2 (state_of (on ''x'' h1 s))") simp_all
  have atx: "namesAgree s \<longrightarrow>
        returned (snd (emit ''x'' arg (state_of (one ''x'' h2 (state_of (on ''x'' h1 s)))))) \<and>
        fst (emit ''x'' arg (state_of (one ''x'' h2 (state_of (on ''x'' h1 s))))) =
          universalCalls s ''x'' arg @ [Invoke h2 [JArg arg]]"
    using general[OF sx] by (simp add: sx)
  from general x atx show ?thesis by blast
qed

theorem exclusive_replaces_witness:
  "(1::nat) \<noteq> 2 \<and>
   one ''x'' 2 (state_of (on ''x'' 1 (EventEmitter ''ns'' True))) =
     Returned (state_of (one ''x'' 2 (state_of (on ''x'' 1 (EventEmitter ''ns'' True))))) \<and>
   namesAgree (EventEmitter ''ns'' True) \<and>
   entries (state_of (one ''x'' 2 (state_of (on ''x'' 1 (EventEmitter ''ns'' True))))) ''ns:x'' =
     [Some 2] \<and>
   returned (snd (emit ''x'' (7::int)
      (state_of (one ''x'' 2 (state_of (on ''x'' 1 (EventEmitter ''ns'' True))))))) \<and>
   fst (emit ''x'' (7::int)
      (state_of (one ''x'' 2 (state_of (on ''x'' 1 (EventEmitter ''ns'' True)))))) =
     [Invoke 2 [JArg 7]] \<and>
   Invoke 1 [JArg 7] \<notin> set (fst (emit ''x'' (7::int)
      (state_of (one ''x'' 2 (state_of (on ''x'' 1 (EventEmitter ''ns'' True)))))))"
proof -
  have ne: "(1::nat) \<noteq> 2" by simp
  have r: "one ''x'' 2 (state_of (on ''x'' 1 (EventEmitter ''ns'' True))) =
      Returned (state_of (one ''x'' 2 (state_of (on ''x'' 1 (EventEmitter ''ns'' True)))))"
    by (simp add: eval_defs)
  have a: "namesAgree (EventEmitter ''ns'' True)"
    by (simp add: namesAgree_def EventEmitter_def)
  have n: "getEventName (EventEmitter ''ns'' True) ''x'' True = ''ns:x''"
    "allEvents (EventEmitter ''ns'' True) = []"
    by (simp_all add: eval_defs)
  from exclusive_replaces[OF ne, where type = "''x''" and s = "EventEmitter ''ns'' True"
      and arg = "7::int"
      and ?s2.0 = "state_of (one ''x'' 2 (state_of (on ''x'' 1 (EventEmitter ''ns'' True))))"]
    ne r a n
  show ?thesis
    by (simp add: universalCalls_def getEventName_def EventEmitter_def)
qed

text \<open>
  On a new emitter with a prefix and \<open>autoPrefix = false\<close>, \<open>emit("x", arg)\<close> after
  \<open>on("x", h1)\<close> and \<open>one("x", h2)\<close> invokes nothing, whatever the prefix.
\<close>

lemma exclusive_unreached_on_new_emitter:
  assumes "pfx \<noteq> []"
  shows "fst (emit ''x'' arg
        (state_of (one ''x'' h2 (state_of (on ''x'' h1 (EventEmitter pfx False)))))) = []"
proof -
  let ?s2 = "state_of (one ''x'' h2 (state_of (on ''x'' h1 (EventEmitter pfx False))))"
  have ev: "events ?s2 = [''x'' \<mapsto> SetV [Some h2]]" "eventsProto ?s2 = None"
    "eventsPrefix ?s2 = pfx" "allEvents ?s2 = []"
    using assms by (simp_all add: eval_defs)
  have "getEvents ?s2 (getEventName ?s2 ''x'' True) = Undefined"
    using assms prefixed_not_builtin[of pfx "''x''"] prefixed_not_raw[of pfx "''x''"]
    unfolding getEvents_def ev getEventName_def
    by (simp add: getProp_def)
  then have "fst (emit ''x'' arg ?s2) = universalCalls ?s2 ''x'' arg"
    by (simp add: emit_unfold)
  with ev(4) show ?thesis by (simp add: universalCalls_def)
qed

section \<open>Single-shot callbacks\<close>

text \<open>
  On an emitter that registers under the names it emits, a callback that is registered
  and marked once under the resolved name is invoked by \<open>emit\<close> and removed from both
  \<open>Set\<close>s; a second \<open>emit\<close> does not invoke it, and invokes every callback of the name that
  was not marked.
\<close>

lemma once_consumed_when_names_agree:
  assumes "namesAgree s"
    and "distinct (set_values (entries s (getEventName s type True)))"
    and "set_has (entries s (getEventName s type True)) h"
    and "set_has (onceEntries s (getEventName s type True)) h"
  shows "returned (snd (emit type arg s)) \<and>
     Invoke h [JArg arg] \<in> set (fst (emit type arg s)) \<and>
     \<not> set_has (entries (state_of (snd (emit type arg s))) (getEventName s type True)) h \<and>
     \<not> set_has (onceEntries (state_of (snd (emit type arg s))) (getEventName s type True)) h \<and>
     returned (snd (emit type arg' (state_of (snd (emit type arg s))))) \<and>
     Invoke h [JArg arg'] \<notin> set (fst (emit type arg' (state_of (snd (emit type arg s))))) \<and>
     (\<forall>g. set_has (entries s (getEventName s type True)) g \<and>
          \<not> set_has (onceEntries s (getEventName s type True)) g \<longrightarrow>
          Invoke g [JArg arg'] \<in> set (fst (emit type arg' (state_of (snd (emit type arg s))))))"
proof -
  let ?k = "getEventName s type True"
  let ?s' = "state_of (snd (emit type arg s))"
  from assms(3) obtain S where S: "getEvents s ?k = Value (SetV S)"
    by (rule set_has_entries_Set)
  have r: "returned (snd (emit type arg s))"
    using assms(1) S by (rule emit_returns)
  have calls: "fst (emit type arg s) =
      universalCalls s type arg @ namedCalls (set_values (entries s ?k)) arg"
    using assms(2) r by (rule emit_calls)
  have first: "Invoke h [JArg arg] \<in> set (fst (emit type arg s))"
    unfolding calls named_call_member using assms(3) by (simp add: set_has_iff)
  have s': "?s' = state_of (snd (forEach_events type ?k arg 0 s))"
    using S by (simp add: emit_unfold)
  have loop: "distinct (set_values (entries ?s' ?k))"
    "set (set_values (entries ?s' ?k)) =
       set (set_values (entries s ?k)) - set (set_values (entries s ?k)) \<inter> set (set_values (onceEntries s ?k))"
    "set (set_values (onceEntries ?s' ?k)) =
       set (set_values (onceEntries s ?k)) - set (set_values (entries s ?k))"
    unfolding s'
    using forEach_agree_state[OF assms(1) refl assms(2), where arg = arg and i = 0] by simp_all
  have fr: "eventsPrefix ?s' = eventsPrefix s" "autoPrefix ?s' = autoPrefix s"
    using emit_frame[of type arg s] by simp_all
  then have a': "namesAgree ?s'" and k': "getEventName ?s' type True = ?k"
    using assms(1) by (simp_all add: namesAgree_def getEventName_def)
  from emit_keeps_Set[OF S, of arg] obtain S' where S': "getEvents ?s' ?k = Value (SetV S')"
    by blast
  have r': "returned (snd (emit type arg' ?s'))"
    using a' S' by (intro emit_returns) (simp_all add: k')
  have calls': "fst (emit type arg' ?s') =
      universalCalls ?s' type arg' @ namedCalls (set_values (entries ?s' ?k)) arg'"
    using emit_calls[of ?s' type arg'] loop(1) r' by (simp add: k')
  have gone: "h \<notin> set (set_values (entries ?s' ?k))" "h \<notin> set (set_values (onceEntries ?s' ?k))"
    using assms(3,4) by (simp_all add: loop set_has_iff)
  have kept: "Invoke g [JArg arg'] \<in> set (fst (emit type arg' ?s'))"
    if "set_has (entries s ?k) g" "\<not> set_has (onceEntries s ?k) g" for g
    unfolding calls' named_call_member using that by (simp add: loop set_has_iff)
  have second: "Invoke h [JArg arg'] \<notin> set (fst (emit type arg' ?s'))"
    unfolding calls' named_call_member using gone by simp
  from r first gone r' second kept show ?thesis
    by (simp add: set_has_iff)
qed

text \<open>
  Claim C1, at the emitter where it fails. With prefix \<open>ns\<close> and \<open>autoPrefix = false\<close>,
  \<open>once("ns:x", h)\<close> stores \<open>h\<close> and its once marker under \<open>ns:x\<close>. \<open>emit("x", arg)\<close> resolves
  to \<open>ns:x\<close> and invokes \<open>h(arg)\<close>; it then calls \<open>this.off("x", h)\<close> with the name it
  received, which \<open>off\<close> resolves to \<open>x\<close>, where there is nothing to delete, and deletes the
  once marker under \<open>ns:x\<close>. The callback stays registered: a second \<open>emit("x", arg)\<close>
  invokes \<open>h(arg)\<close> again.
\<close>

theorem once_not_removed_under_explicit_prefix:
  "(let s1 = state_of (once ''ns:x'' h (EventEmitter ''ns'' False));
        r1 = emit ''x'' arg s1;
        r2 = emit ''x'' arg (state_of (snd r1))
    in returned (once ''ns:x'' h (EventEmitter ''ns'' False)) \<and>
       entries s1 ''ns:x'' = [Some h] \<and> onceEntries s1 ''ns:x'' = [Some h] \<and>
       fst r1 = [Invoke h [JArg arg]] \<and> returned (snd r1) \<and>
       entries (state_of (snd r1)) ''ns:x'' = [Some h] \<and>
       onceEntries (state_of (snd r1)) ''ns:x'' = [None] \<and>
       fst r2 = [Invoke h [JArg arg]] \<and> returned (snd r2))"
  by (simp add: eval_defs entries_def onceEntries_def)

section \<open>Names that the prototype of the dictionaries answers\<close>

text \<open>
  \<open>on\<close>, \<open>off\<close> and, on an emitter that registers under the names it emits, \<open>emit\<close> return
  at the same names: those under which \<open>events\<close> has nothing or a \<open>Set\<close>. \<open>once\<close> needs the
  same of \<open>onceCallbacks\<close>. On a new emitter these are all names but \<open>__proto__\<close> and the
  property names of \<open>Object.prototype\<close>.
\<close>

lemma on_returned_iff: "returned (on type h s) \<longleftrightarrow> returned (off type h s)"
  by (simp add: on_unfold off_unfold split: lookup.splits jsval.splits)

lemma once_returned_iff:
  "returned (once type h s) \<longleftrightarrow>
     returned (off type h s) \<and> getOnce s (getEventName s type (autoPrefix s)) \<noteq> Value Builtin"
proof (cases "on type h s")
  case (Returned s2)
  then have "getOnce s2 (getEventName s type (autoPrefix s)) =
      getOnce s (getEventName s type (autoPrefix s))"
    using on_frame(4)[of type h s] by (simp add: getOnce_def)
  with Returned on_returned_iff[of type h s] show ?thesis
    by (simp add: once_on mark_unfold split: lookup.splits jsval.splits)
next
  case (Thrown e s1)
  with on_returned_iff[of type h s] show ?thesis by (simp add: once_on)
qed

lemma emit_returned_agree:
  assumes "namesAgree s"
  shows "returned (snd (emit type arg s)) \<longleftrightarrow> returned (off type h s)"
proof (cases "getEvents s (getEventName s type True)")
  case (Value v)
  show ?thesis
  proof (cases v)
    case (SetV S)
    with Value assms emit_returns[of s type S arg] show ?thesis
      by (simp add: off_returned_iff namesAgree_getEventName)
  next
    case Builtin
    with Value assms show ?thesis
      by (simp add: emit_unfold off_returned_iff namesAgree_getEventName)
  qed
qed (use assms in \<open>simp_all add: emit_unfold off_returned_iff namesAgree_getEventName\<close>)

lemma new_emitter_off_returns:
  "returned (off type h (EventEmitter pfx auto)) \<longleftrightarrow>
     getEventName (EventEmitter pfx auto) type auto \<noteq> ''__proto__'' \<and>
     getEventName (EventEmitter pfx auto) type auto \<notin> set objectProtoKeys"
  by (simp add: off_returned_iff getEvents_def getProp_def EventEmitter_def getEventName_def)

text \<open>
  Claim C7, at names where it fails. On a new emitter without prefix nothing is
  registered under \<open>toString\<close>, yet \<open>this.events["toString"]\<close> is the function inherited from
  \<open>Object.prototype\<close>: \<open>off("toString", h)\<close> passes the guard and throws on \<open>.delete\<close>, and
  \<open>emit("toString", arg)\<close> throws on \<open>.forEach\<close>. The same holds with other callbacks
  registered.
\<close>

theorem builtin_name_throws:
  "off ''toString'' h (EventEmitter [] False) = Thrown TypeError (EventEmitter [] False) \<and>
   emit ''toString'' arg (EventEmitter [] False) = ([], Thrown TypeError (EventEmitter [] False)) \<and>
   off ''constructor'' h (state_of (on ''x'' g (EventEmitter [] False))) =
     Thrown TypeError (state_of (on ''x'' g (EventEmitter [] False)))"
  by (simp add: eval_defs)

text \<open>
  Claim C8, at inputs where it fails. On a new emitter without prefix, \<open>on\<close>, \<open>once\<close>, \<open>off\<close>
  and \<open>emit\<close> throw a \<open>TypeError\<close> instead of returning \<open>this\<close> when the name is one that
  \<open>Object.prototype\<close> answers.
\<close>

theorem methods_throw_on_builtin_name:
  "\<not> returned (on ''constructor'' h (EventEmitter [] False)) \<and>
   \<not> returned (once ''valueOf'' h (EventEmitter [] False)) \<and>
   \<not> returned (off ''hasOwnProperty'' h (EventEmitter [] False)) \<and>
   \<not> returned (snd (emit ''toString'' arg (EventEmitter [] False))) \<and>
   \<not> returned (on ''__proto__'' h (EventEmitter [] False))"
  by (simp add: eval_defs)

section \<open>Once markers and the callbacks of a name\<close>

text \<open>
  Starting from a new emitter, after every sequence of calls that keep the markers in
  the states they find, and for every name: every callback among the once markers of the
  name is among the callbacks of the name. The calls are \<open>off\<close> of a callback that is not
  marked, \<open>one\<close> under a name that has no marker of another callback, \<open>emit\<close> on an emitter
  without prefix or with \<open>autoPrefix\<close>, and every call of \<open>on\<close>, \<open>once\<close>, \<open>onAll\<close> and
  \<open>offAll\<close>. This holds also when calls of the sequence throw.
\<close>

lemma markers_kept:
  "keepsMarkersAlong cs (EventEmitter pfx auto) \<Longrightarrow>
   onceWithinHandlers (run cs (EventEmitter pfx auto)) k"
  using inv_run[of cs "EventEmitter pfx auto" k] inv_new by simp

lemma markers_kept_example:
  "keepsMarkersAlong
     [On ''x'' 1, Once ''x'' 2, Off ''x'' 1, OnAll 3, Emit ''x'' (0::int), Once ''y'' 1,
      One ''y'' 1, OffAll 3]
     (EventEmitter [] False) \<and>
   onceWithinHandlers
     (run [On ''x'' 1, Once ''x'' 2, Off ''x'' 1, OnAll 3, Emit ''x'' (0::int), Once ''y'' 1,
           One ''y'' 1, OffAll 3]
        (EventEmitter [] False)) ''y'' \<and>
   onceEntries
     (run [On ''x'' 1, Once ''x'' 2, Off ''x'' 1, OnAll 3, Emit ''x'' (0::int), Once ''y'' 1,
           One ''y'' 1, OffAll 3]
        (EventEmitter [] False)) ''y'' = [Some 1]"
  using markers_kept[where pfx = "[]" and auto = False and k = "''y''"
      and cs = "[On ''x'' 1, Once ''x'' 2, Off ''x'' 1, OnAll 3, Emit ''x'' (0::int),
        Once ''y'' 1, One ''y'' 1, OffAll 3]"]
  by (simp add: eval_defs onceEntries_def namesAgree_def)

text \<open>
  Claim C2, at the calls where it fails. \<open>emit\<close> deletes a single-shot callback from the
  \<open>Set\<close> of the name and from the once markers together; \<open>off\<close> and \<open>one\<close> change the \<open>Set\<close>
  of the name and leave \<open>onceCallbacks\<close> as it is. On a new emitter, after \<open>once("x", h)\<close>
  and \<open>off("x", h)\<close> the callback \<open>h\<close> is marked under \<open>x\<close> and is not among the callbacks of
  \<open>x\<close>. The marker then acts on a later registration: after \<open>on("x", h)\<close> the first
  \<open>emit("x", arg)\<close> invokes \<open>h(arg)\<close> and removes \<open>h\<close>, and the second invokes nothing,
  although \<open>on\<close> registers for every emit. After \<open>once("x", h)\<close> and \<open>one("x", g)\<close> the
  callbacks of \<open>x\<close> are \<open>g\<close> alone and \<open>h\<close> is still marked.
\<close>

theorem markers_outlive_off_and_one:
  "(let s1 = state_of (once ''x'' h (EventEmitter [] False));
        s2 = state_of (off ''x'' h s1);
        s3 = state_of (on ''x'' h s2);
        r1 = emit ''x'' arg s3;
        r2 = emit ''x'' arg (state_of (snd r1));
        t2 = state_of (one ''x'' g s1)
    in returned (once ''x'' h (EventEmitter [] False)) \<and> returned (off ''x'' h s1) \<and>
       set_values (onceEntries s2 ''x'') = [h] \<and> set_values (entries s2 ''x'') = [] \<and>
       \<not> onceWithinHandlers s2 ''x'' \<and>
       returned (on ''x'' h s2) \<and> set_values (entries s3 ''x'') = [h] \<and>
       fst r1 = [Invoke h [JArg arg]] \<and> returned (snd r1) \<and>
       set_values (entries (state_of (snd r1)) ''x'') = [] \<and>
       fst r2 = [] \<and> returned (snd r2) \<and>
       returned (one ''x'' g s1) \<and>
       set_values (onceEntries t2 ''x'') = [h] \<and> set_values (entries t2 ''x'') = [g])"
  by (simp add: eval_defs entries_def onceEntries_def onceWithinHandlers_def)

text \<open>
  With a prefix and \<open>autoPrefix = false\<close>, \<open>emit\<close> calls \<open>off\<close> with the unresolved name and
  can delete a callback that is still marked under that name.
\<close>

lemma markers_broken_by_emit_under_explicit_prefix:
  "\<not> onceWithinHandlers
       (run [Once ''x'' 1, Once ''ns:x'' 1, Emit ''x'' (0::int)] (EventEmitter ''ns'' False)) ''x''"
  by (simp add: eval_defs onceWithinHandlers_def onceEntries_def entries_def)

end
